theory Spec2Isabelle
  imports Complex_Main "HOL-Library.Multiset"
begin

section \<open>Person records\<close>

text \<open>
  \<^verbatim>\<open>familytree.js\<close> keeps one kind of object through its whole pipeline and replaces the
  fields \<^verbatim>\<open>partner\<close> and \<^verbatim>\<open>children\<close> in place: ids before linking
  (\<^verbatim>\<open>UnlinkedPerson\<close>), object references after it (\<^verbatim>\<open>LinkedPerson\<close>). The record is
  therefore polymorphic in these two fields. An optional JSON field is an \<open>option\<close>;
  \<^verbatim>\<open>ident\<close> is the field \<^verbatim>\<open>id\<close>.
\<close>

record ('p, 'c) person =
  name :: string
  ident :: string
  partner :: 'p
  children :: 'c

type_synonym UnlinkedPerson = "(string option, string list option) person"

text \<open>The only exception the merge could raise: reading a field of \<^verbatim>\<open>undefined\<close>.\<close>

datatype error = TypeError

text \<open>
  JavaScript truthiness of a partner id: \<^verbatim>\<open>undefined\<close> and the empty string are falsy.
  An array is always truthy, so a children field is truthy exactly when it is present.
\<close>

definition truthy :: "string option \<Rightarrow> bool" where
  "truthy s = (case s of None \<Rightarrow> False | Some t \<Rightarrow> t \<noteq> [])"

section \<open>Merging duplicates (\<^verbatim>\<open>fromJSON\<close>, lines 41-68)\<close>

text \<open>\<^verbatim>\<open>Array.prototype.findIndex\<close>; \<open>None\<close> stands for the result \<^verbatim>\<open>-1\<close>.\<close>

fun findIndex :: "('a \<Rightarrow> bool) \<Rightarrow> 'a list \<Rightarrow> nat option" where
  "findIndex P [] = None"
| "findIndex P (x # xs) = (if P x then Some 0 else map_option Suc (findIndex P xs))"

text \<open>
  The inner loop of the merge: every child id of the later record that
  \<^verbatim>\<open>duplicate.children\<close> does not include yet is pushed onto it.
\<close>

definition pushUnseen :: "string list \<Rightarrow> string list \<Rightarrow> string list" where
  "pushUnseen dc pc = fold (\<lambda>child acc. if child \<in> set acc then acc else acc @ [child]) pc dc"

text \<open>
  The body of the filter callback after the early return: \<^verbatim>\<open>duplicate\<close> is the first
  record with the id, \<^verbatim>\<open>person\<close> the later one. The later record is dropped by the
  filter, so the array it shares with \<^verbatim>\<open>duplicate\<close> after
  \<^verbatim>\<open>duplicate.children = person.children\<close> is never read through it again.
\<close>

definition mergeInto :: "UnlinkedPerson \<Rightarrow> UnlinkedPerson \<Rightarrow> UnlinkedPerson" where
  "mergeInto duplicate person =
     (let d = (if \<not> truthy (partner duplicate) then duplicate\<lparr>partner := partner person\<rparr> else duplicate)
      in case children d of
           Some dc \<Rightarrow> (case children person of
                         Some pc \<Rightarrow> d\<lparr>children := Some (pushUnseen dc pc)\<rparr>
                       | None \<Rightarrow> d)
         | None \<Rightarrow> d\<lparr>children := children person\<rparr>)"

text \<open>
  One call of the filter callback at \<open>index\<close>. The state is the array \<^verbatim>\<open>people\<close>, whose
  objects the callback mutates, and the indices kept so far. \<^verbatim>\<open>people[-1]\<close> is
  \<^verbatim>\<open>undefined\<close>, so a failed \<^verbatim>\<open>findIndex\<close> would end in a \<^verbatim>\<open>TypeError\<close>;
  \<open>findIndex_self\<close> below shows that this never happens.
\<close>

definition mergeStep :: "nat \<Rightarrow> UnlinkedPerson list \<times> nat list \<Rightarrow> error + UnlinkedPerson list \<times> nat list" where
  "mergeStep index st =
     (case st of (people, kept) \<Rightarrow>
        (case findIndex (\<lambda>p. ident p = ident (people ! index)) people of
           None \<Rightarrow> Inl TypeError
         | Some pIndex \<Rightarrow>
             if pIndex = index then Inr (people, kept @ [index])
             else Inr (people[pIndex := mergeInto (people ! pIndex) (people ! index)], kept)))"

fun mergeLoop :: "nat list \<Rightarrow> UnlinkedPerson list \<times> nat list \<Rightarrow> error + UnlinkedPerson list \<times> nat list" where
  "mergeLoop [] st = Inr st"
| "mergeLoop (index # rest) st =
     (case mergeStep index st of Inl e \<Rightarrow> Inl e | Inr st' \<Rightarrow> mergeLoop rest st')"

text \<open>
  \<^verbatim>\<open>people.filter(...)\<close>: the callback runs at every index in order, and the result holds
  the kept objects as they are once all callbacks have run.
\<close>

definition mergeDuplicates :: "UnlinkedPerson list \<Rightarrow> error + UnlinkedPerson list" where
  "mergeDuplicates people =
     (case mergeLoop [0..<length people] (people, []) of
        Inl e \<Rightarrow> Inl e
      | Inr (people', kept) \<Rightarrow> Inr (map (\<lambda>i. people' ! i) kept))"

text \<open>Basic facts about \<open>findIndex\<close>.\<close>

lemma findIndex_Some_iff:
  "findIndex P xs = Some i \<longleftrightarrow> i < length xs \<and> P (xs ! i) \<and> (\<forall>j<i. \<not> P (xs ! j))"
proof (induction xs arbitrary: i)
  case Nil
  then show ?case by simp
next
  case (Cons x xs)
  show ?case
  proof (cases "P x")
    case True
    then show ?thesis by (cases i) auto
  next
    case False
    show ?thesis
    proof (cases i)
      case 0
      with False show ?thesis by auto
    next
      case (Suc k)
      with False Cons.IH [of k] show ?thesis
        by (auto simp: less_Suc_eq_0_disj)
    qed
  qed
qed

lemma findIndex_None_iff: "findIndex P xs = None \<longleftrightarrow> (\<forall>x\<in>set xs. \<not> P x)"
  by (induction xs) auto

lemma findIndex_cong_map:
  "map f xs = map f ys \<Longrightarrow> findIndex (\<lambda>p. f p = v) xs = findIndex (\<lambda>p. f p = v) ys"
proof (induction xs arbitrary: ys)
  case Nil
  then show ?case by simp
next
  case (Cons x xs)
  then obtain y ys' where ys: "ys = y # ys'" "f x = f y" "map f xs = map f ys'"
    by (cases ys) auto
  with Cons.IH [of ys'] show ?case by simp
qed

section \<open>Linking (\<^verbatim>\<open>linkPeople\<close> and \<^verbatim>\<open>findPerson\<close>, lines 80-117)\<close>

text \<open>
  A reference to a person object is its index in the array \<^verbatim>\<open>people\<close>: objects are only
  ever appended to that array. A linked person keeps either a reference to its partner or
  the falsy value it had (\<open>None\<close>); every later use only tests the field for truth.

  \<^verbatim>\<open>for (const person of people)\<close> visits the indices in order, and the array grows
  while it runs. The state splits the array at the cursor: \<open>linked\<close> are the persons
  visited so far (the last one is the person being visited, once its partner is set and
  its children array is reset), \<open>pending\<close> the persons from the cursor on, with their ids
  still unresolved. \<open>warnings\<close> collects the texts passed to \<^verbatim>\<open>warn\<close>.
\<close>

type_synonym LinkedPerson = "(nat option, nat list) person"

record linkState =
  linked :: "LinkedPerson list"
  pending :: "UnlinkedPerson list"
  warnings :: "string list"

definition idsOf :: "linkState \<Rightarrow> string list" where
  "idsOf st = map ident (linked st) @ map ident (pending st)"

text \<open>
  The test \<^verbatim>\<open>p.partner && (p.partner == id || p.partner.id == id)\<close> of the back-inference.
  On a person not visited yet the partner is a string: \<^verbatim>\<open>p.partner.id\<close> is
  \<^verbatim>\<open>undefined\<close>, and the test compares the string with the id. On a visited person the
  partner is an object: \<^verbatim>\<open>==\<close> compares its string conversion, which is
  \<^verbatim>\<open>[object Object]\<close> for every plain object, with the id, and
  \<^verbatim>\<open>p.partner.id\<close> is the id of the partner.
\<close>

definition objectString :: string where
  "objectString = ''[object Object]''"

definition pointsAtLinked :: "linkState \<Rightarrow> string \<Rightarrow> LinkedPerson \<Rightarrow> bool" where
  "pointsAtLinked st id' p =
     (case partner p of None \<Rightarrow> False
      | Some r \<Rightarrow> id' = objectString \<or> idsOf st ! r = id')"

definition pointsAtPending :: "string \<Rightarrow> UnlinkedPerson \<Rightarrow> bool" where
  "pointsAtPending id' p = (truthy (partner p) \<and> partner p = Some id')"

definition backInfer :: "linkState \<Rightarrow> string \<Rightarrow> string option" where
  "backInfer st id' =
     (case find (pointsAtLinked st id') (linked st) of
        Some q \<Rightarrow> Some (ident q)
      | None \<Rightarrow> map_option ident (find (pointsAtPending id') (pending st)))"

text \<open>
  \<^verbatim>\<open>findPerson\<close> returns the reference and the new state. A placeholder is pushed at the
  end of the array; its partner is the id of the first person that the test above accepts.
\<close>

definition findPerson :: "linkState \<Rightarrow> string \<Rightarrow> nat \<times> linkState" where
  "findPerson st id' =
     (case findIndex (\<lambda>i. i = id') (idsOf st) of
        Some r \<Rightarrow> (r, st)
      | None \<Rightarrow>
          (length (idsOf st),
           st\<lparr>pending := pending st @
                  [\<lparr>name = id', ident = id', partner = backInfer st id', children = Some []\<rparr>],
              warnings := warnings st @ [''Person not found with ID: '' @ id']\<rparr>))"

text \<open>
  One round of the loop over \<^verbatim>\<open>childrenIDs\<close>: the person being visited is the last of
  \<open>linked\<close>.
\<close>

definition pushChild :: "string \<Rightarrow> linkState \<Rightarrow> linkState" where
  "pushChild childID st =
     (case findPerson st childID of (r, st') \<Rightarrow>
        st'\<lparr>linked := (linked st')[length (linked st') - 1 :=
                 (last (linked st'))\<lparr>children := children (last (linked st')) @ [r]\<rparr>]\<rparr>)"

definition linkPartner :: "linkState \<Rightarrow> UnlinkedPerson \<Rightarrow> nat option \<times> linkState" where
  "linkPartner st person =
     (if truthy (partner person)
      then (case findPerson st (the (partner person)) of (r, st') \<Rightarrow> (Some r, st'))
      else (None, st))"

text \<open>One round of the loop of \<^verbatim>\<open>linkPeople\<close>, on the person at the cursor.\<close>

definition visit :: "linkState \<Rightarrow> linkState" where
  "visit st =
     (case pending st of
        [] \<Rightarrow> st
      | person # _ \<Rightarrow>
          (case linkPartner st person of (p, st1) \<Rightarrow>
             let st2 = st1\<lparr>linked := linked st1 @
                            [\<lparr>name = name person, ident = ident person, partner = p, children = []\<rparr>],
                          pending := tl (pending st1)\<rparr>
             in case children person of
                  None \<Rightarrow> st2
                | Some childrenIDs \<Rightarrow> fold pushChild childrenIDs st2))"

subsection \<open>The loop of \<^verbatim>\<open>linkPeople\<close> terminates\<close>

text \<open>
  Every round takes one person from \<open>pending\<close> and adds at most one placeholder for each
  id the person refers to that no record has; a placeholder refers to no such id. So the
  number of pending persons plus the number of their references to missing ids decreases.
\<close>

definition slots :: "UnlinkedPerson \<Rightarrow> string list" where
  "slots p = (if truthy (partner p) then [the (partner p)] else []) @
             (case children p of None \<Rightarrow> [] | Some cs \<Rightarrow> cs)"

definition missing :: "string list \<Rightarrow> string list \<Rightarrow> nat" where
  "missing ids ss = length (filter (\<lambda>s. s \<notin> set ids) ss)"

definition potential :: "string list \<Rightarrow> UnlinkedPerson list \<Rightarrow> nat" where
  "potential ids ps = sum_list (map (\<lambda>p. Suc (missing ids (slots p))) ps)"

lemma missing_mono: "set ids \<subseteq> set ids' \<Longrightarrow> missing ids' ss \<le> missing ids ss"
  unfolding missing_def by (induction ss) auto

lemma potential_mono: "set ids \<subseteq> set ids' \<Longrightarrow> potential ids' ps \<le> potential ids ps"
  unfolding potential_def
  by (induction ps) (auto intro: add_mono missing_mono)

lemma potential_append: "potential ids (ps @ qs) = potential ids ps + potential ids qs"
  by (simp add: potential_def)

lemma backInfer_in_ids: "backInfer st s = Some t \<Longrightarrow> t \<in> set (idsOf st)"
  by (auto simp: backInfer_def idsOf_def find_Some_iff split: option.splits)

lemma findPerson_found:
  "s \<in> set (idsOf st) \<Longrightarrow> snd (findPerson st s) = st"
  by (cases "findIndex (\<lambda>i. i = s) (idsOf st)") (auto simp: findPerson_def findIndex_None_iff)

lemma findPerson_new:
  "s \<notin> set (idsOf st) \<Longrightarrow>
     findPerson st s =
       (length (idsOf st),
        st\<lparr>pending := pending st @
               [\<lparr>name = s, ident = s, partner = backInfer st s, children = Some []\<rparr>],
           warnings := warnings st @ [''Person not found with ID: '' @ s]\<rparr>)"
  by (cases "findIndex (\<lambda>i. i = s) (idsOf st)") (auto simp: findPerson_def findIndex_Some_iff)

lemma missing_placeholder:
  "missing (idsOf st @ [s]) (slots \<lparr>name = s, ident = s, partner = backInfer st s, children = Some []\<rparr>) = 0"
  by (auto simp: missing_def slots_def truthy_def dest: backInfer_in_ids split: option.splits)

definition load :: "nat \<Rightarrow> linkState \<Rightarrow> string list \<Rightarrow> nat" where
  "load k st rem = potential (idsOf st) (drop k (pending st)) + missing (idsOf st) rem"

lemma load_findPerson:
  assumes "k \<le> length (pending st)"
  shows "load k (snd (findPerson st s)) rem \<le> load k st (s # rem)"
proof (cases "s \<in> set (idsOf st)")
  case True
  then show ?thesis
    by (simp add: findPerson_found load_def missing_def)
next
  case False
  let ?np = "\<lparr>name = s, ident = s, partner = backInfer st s, children = Some []\<rparr>"
  let ?st = "snd (findPerson st s)"
  have ids: "idsOf ?st = idsOf st @ [s]" and pend: "pending ?st = pending st @ [?np]"
    using False by (simp_all add: findPerson_new idsOf_def)
  have sub: "set (idsOf st) \<subseteq> set (idsOf st @ [s])" by auto
  have "potential (idsOf ?st) (drop k (pending ?st)) =
          potential (idsOf st @ [s]) (drop k (pending st)) + 1"
    using assms missing_placeholder [of st s]
    by (simp add: ids pend potential_append) (simp add: potential_def)
  moreover have "potential (idsOf st @ [s]) (drop k (pending st)) \<le> potential (idsOf st) (drop k (pending st))"
    by (rule potential_mono [OF sub])
  moreover have "missing (idsOf ?st) rem \<le> missing (idsOf st) rem"
    unfolding ids by (rule missing_mono [OF sub])
  moreover have "missing (idsOf st) (s # rem) = Suc (missing (idsOf st) rem)"
    using False by (simp add: missing_def)
  ultimately show ?thesis by (simp add: load_def)
qed

lemma idsOf_pushChild_aux:
  "map ident (xs[length xs - Suc 0 := (last xs)\<lparr>children := cs\<rparr>]) = map ident xs"
proof (cases "xs = []")
  case True
  then show ?thesis by simp
next
  case False
  then show ?thesis
    by (simp add: map_update last_conv_nth list_update_same_conv)
qed

lemma pushChild_fields:
  "idsOf (pushChild c st) = idsOf (snd (findPerson st c))"
  "pending (pushChild c st) = pending (snd (findPerson st c))"
  by (simp_all add: pushChild_def idsOf_def idsOf_pushChild_aux split: prod.splits)

lemma load_pushChild: "load 0 (pushChild c st) rem \<le> load 0 st (c # rem)"
  using load_findPerson [of 0 st c rem]
  by (simp add: load_def pushChild_fields)

lemma load_fold_pushChild: "load 0 (fold pushChild cs st) [] \<le> load 0 st cs"
proof (induction cs arbitrary: st)
  case Nil
  then show ?case by simp
next
  case (Cons c cs)
  have "load 0 (fold pushChild cs (pushChild c st)) [] \<le> load 0 (pushChild c st) cs"
    by (rule Cons.IH)
  also have "\<dots> \<le> load 0 st (c # cs)" by (rule load_pushChild)
  finally show ?case by simp
qed

lemma pending_findPerson_nonempty:
  "pending st \<noteq> [] \<Longrightarrow> pending (snd (findPerson st s)) \<noteq> []"
  by (cases "s \<in> set (idsOf st)") (simp_all add: findPerson_found findPerson_new)

lemma idsOf_move:
  "pending st1 \<noteq> [] \<Longrightarrow> ident (hd (pending st1)) = i \<Longrightarrow>
   idsOf (st1\<lparr>linked := linked st1 @ [\<lparr>name = n, ident = i, partner = p, children = []\<rparr>],
              pending := tl (pending st1)\<rparr>) = idsOf st1"
  by (cases "pending st1") (simp_all add: idsOf_def)

lemma hd_pending_findPerson:
  "pending st \<noteq> [] \<Longrightarrow> hd (pending (snd (findPerson st s))) = hd (pending st)"
  by (cases "s \<in> set (idsOf st)") (simp_all add: findPerson_found findPerson_new)

lemma visit_decreases:
  assumes ne: "pending st \<noteq> []"
  shows "potential (idsOf (visit st)) (pending (visit st)) < potential (idsOf st) (pending st)"
proof -
  obtain person rest where pend: "pending st = person # rest"
    using ne by (cases "pending st") auto
  obtain p st1 where lp: "linkPartner st person = (p, st1)" by force
  define cs where "cs = (case children person of None \<Rightarrow> [] | Some c \<Rightarrow> c)"
  define ps where "ps = (if truthy (partner person) then [the (partner person)] else [])"
  define st2 where "st2 = st1\<lparr>linked := linked st1 @
       [\<lparr>name = name person, ident = ident person, partner = p, children = []\<rparr>],
       pending := tl (pending st1)\<rparr>"
  have slots: "slots person = ps @ cs"
    by (simp add: slots_def ps_def cs_def)
  have start: "potential (idsOf st) (pending st) = Suc (load 1 st (ps @ cs))"
    by (simp add: pend potential_def load_def slots)
  have st1_props: "load 1 st1 cs \<le> load 1 st (ps @ cs) \<and> pending st1 \<noteq> [] \<and> hd (pending st1) = person"
  proof (cases "truthy (partner person)")
    case True
    then have "st1 = snd (findPerson st (the (partner person)))"
      using lp by (simp add: linkPartner_def split: prod.splits)
    with True load_findPerson [of 1 st "the (partner person)" cs] pend
      pending_findPerson_nonempty [of st] hd_pending_findPerson [of st]
    show ?thesis by (simp add: ps_def)
  next
    case False
    then have "st1 = st" using lp by (simp add: linkPartner_def)
    with False pend show ?thesis by (simp add: ps_def)
  qed
  have ids2: "idsOf st2 = idsOf st1"
    unfolding st2_def using st1_props by (intro idsOf_move) auto
  have pend2: "pending st2 = drop 1 (pending st1)"
    by (simp add: st2_def drop_Suc)
  have l2: "load 0 st2 cs = load 1 st1 cs"
    by (simp add: load_def ids2 pend2)
  have v: "visit st = fold pushChild cs st2"
    by (simp add: visit_def pend lp st2_def cs_def split: option.splits)
  have "potential (idsOf (visit st)) (pending (visit st)) = load 0 (visit st) []"
    by (simp add: load_def missing_def)
  also have "\<dots> \<le> load 0 st2 cs"
    unfolding v by (rule load_fold_pushChild)
  also have "\<dots> \<le> load 1 st (ps @ cs)"
    using st1_props l2 by simp
  finally show ?thesis using start by simp
qed

function linkLoop :: "linkState \<Rightarrow> linkState" where
  "linkLoop st = (if pending st = [] then st else linkLoop (visit st))"
  by pat_completeness auto
termination
  by (relation "measure (\<lambda>st. potential (idsOf st) (pending st))") (auto intro: visit_decreases)

declare linkLoop.simps [simp del]

text \<open>
  \<^verbatim>\<open>linkPeople\<close> mutates the array it is given; \<^verbatim>\<open>fromJSON\<close> returns that array. The
  warnings emitted on the way are returned beside it. The JSON texts are taken as parsed:
  one list of records for each source.
\<close>

definition linkPeople :: "UnlinkedPerson list \<Rightarrow> LinkedPerson list \<times> string list" where
  "linkPeople people =
     (let st = linkLoop \<lparr>linked = [], pending = people, warnings = []\<rparr>
      in (linked st, warnings st))"

definition fromJSON :: "UnlinkedPerson list list \<Rightarrow> error + LinkedPerson list \<times> string list" where
  "fromJSON jsons =
     (case mergeDuplicates (concat jsons) of
        Inl e \<Rightarrow> Inl e
      | Inr peopleSet \<Rightarrow> Inr (linkPeople peopleSet))"

section \<open>Laying out the tree (\<^verbatim>\<open>layOut\<close> and \<^verbatim>\<open>setUpPerson\<close>, lines 183-281)\<close>

definition PERSON_SPACE :: real where
  "PERSON_SPACE = 20"

definition GEN_SPACE :: real where
  "GEN_SPACE = 55"

text \<open>
  The root that \<^verbatim>\<open>layOut\<close> draws from:
  \<^verbatim>\<open>people.find(p => p.children && p.children.find(c => c.id == root.id)) || root\<close>.
  The children of a linked person are always an array, and an object found is truthy; the
  person found is returned as its reference.
\<close>

definition effectiveRoot :: "LinkedPerson list \<Rightarrow> nat \<Rightarrow> nat" where
  "effectiveRoot people candidate =
     (case findIndex (\<lambda>p. find (\<lambda>c. ident (people ! c) = ident (people ! candidate)) (children p) \<noteq> None)
             people of
        Some i \<Rightarrow> i
      | None \<Rightarrow> candidate)"

subsection \<open>Widths\<close>

text \<open>
  \<^verbatim>\<open>setUpPerson\<close> gives every person a fresh \<^verbatim>\<open>div\<close>; \<open>ow p\<close> is
  \<^verbatim>\<open>div.offsetWidth\<close> of the person \<open>p\<close>, a measure the browser supplies. The memo
  \<^verbatim>\<open>person._width\<close> is a map from persons to numbers; a stored \<open>0\<close> is falsy and is
  computed again. The recursion of \<^verbatim>\<open>getWidth\<close> follows the children links and does
  not return on a cycle: the first argument bounds its depth, and \<open>None\<close> is a call that
  does not return within it. \<^verbatim>\<open>linkPeople\<close> has given every person a children array, and
  an array is truthy: of \<^verbatim>\<open>getChildrenWidth\<close> only the branch under
  \<^verbatim>\<open>if (person.children)\<close> can run, and its \<^verbatim>\<open>return 0\<close> is never reached. Numbers
  are reals: the box widths are whole pixels, and the layout only adds, halves and compares
  them.
\<close>

type_synonym cache = "nat \<Rightarrow> real option"

definition getPartnerWidth :: "LinkedPerson list \<Rightarrow> (nat \<Rightarrow> real) \<Rightarrow> nat \<Rightarrow> real" where
  "getPartnerWidth ps ow p =
     (case partner (ps ! p) of
        Some q \<Rightarrow> ow p + PERSON_SPACE + ow q
      | None \<Rightarrow> ow p)"

text \<open>\<^verbatim>\<open>children.reduce((sum, child) => sum + child.getWidth(), 0)\<close>, with the memo threaded.\<close>

fun reduceWidths ::
  "(nat \<Rightarrow> cache \<Rightarrow> (real \<times> cache) option) \<Rightarrow> nat list \<Rightarrow> real \<Rightarrow> cache \<Rightarrow> (real \<times> cache) option" where
  "reduceWidths gw [] acc c = Some (acc, c)"
| "reduceWidths gw (child # rest) acc c =
     (case gw child c of
        None \<Rightarrow> None
      | Some (w, c') \<Rightarrow> reduceWidths gw rest (acc + w) c')"

definition cached :: "cache \<Rightarrow> nat \<Rightarrow> real option" where
  "cached c p = (case c p of Some w \<Rightarrow> if w \<noteq> 0 then Some w else None | None \<Rightarrow> None)"

fun getWidth :: "nat \<Rightarrow> LinkedPerson list \<Rightarrow> (nat \<Rightarrow> real) \<Rightarrow> nat \<Rightarrow> cache \<Rightarrow> (real \<times> cache) option"
  and getChildrenWidth :: "nat \<Rightarrow> LinkedPerson list \<Rightarrow> (nat \<Rightarrow> real) \<Rightarrow> nat \<Rightarrow> cache \<Rightarrow> (real \<times> cache) option"
  where
  "getWidth 0 ps ow p c = None"
| "getWidth (Suc f) ps ow p c =
     (case cached c p of
        Some w \<Rightarrow> Some (w, c)
      | None \<Rightarrow>
          (case getChildrenWidth f ps ow p c of
             None \<Rightarrow> None
           | Some (cw, c') \<Rightarrow>
               Some (max (getPartnerWidth ps ow p) cw,
                     c'(p := Some (max (getPartnerWidth ps ow p) cw)))))"
| "getChildrenWidth f ps ow p c =
     (case reduceWidths (getWidth f ps ow) (children (ps ! p)) 0 c of
        None \<Rightarrow> None
      | Some (acc, c') \<Rightarrow>
          Some (acc + (real (length (children (ps ! p))) - 1) * PERSON_SPACE, c'))"

declare getChildrenWidth.simps [simp del]

text \<open>No width is memoised on the persons of a newly loaded dataset.\<close>

definition noWidths :: cache where
  "noWidths = (\<lambda>_. None)"

subsection \<open>Showing, placing and drawing\<close>

text \<open>
  \<^verbatim>\<open>person.show\<close> appends name boxes to the tree; the result lists the persons whose
  box is appended, in order. The depth of the recursion is bounded as for the widths.
\<close>

fun mapCalls :: "(nat \<Rightarrow> 'a list option) \<Rightarrow> nat list \<Rightarrow> 'a list option" where
  "mapCalls g [] = Some []"
| "mapCalls g (child # rest) =
     (case g child of
        None \<Rightarrow> None
      | Some xs \<Rightarrow> (case mapCalls g rest of None \<Rightarrow> None | Some ys \<Rightarrow> Some (xs @ ys)))"

fun showPerson :: "nat \<Rightarrow> LinkedPerson list \<Rightarrow> nat \<Rightarrow> nat list option" where
  "showPerson 0 ps p = None"
| "showPerson (Suc f) ps p =
     (case partner (ps ! p) of
        None \<Rightarrow> Some [p]
      | Some q \<Rightarrow>
          (case mapCalls (showPerson f ps) (children (ps ! p)) of
             None \<Rightarrow> None
           | Some shown \<Rightarrow> Some (p # q # shown)))"

text \<open>
  \<^verbatim>\<open>move(div, x, y)\<close> shifts a box by \<open>(x, y)\<close> from where it is; a placement is the list
  of the calls of \<^verbatim>\<open>move\<close>, in order.
\<close>

record move =
  box :: nat
  dx :: real
  dy :: real

fun placeChildren ::
  "(nat \<Rightarrow> real \<Rightarrow> real \<Rightarrow> cache \<Rightarrow> (move list \<times> cache) option) \<Rightarrow>
   (nat \<Rightarrow> cache \<Rightarrow> (real \<times> cache) option) \<Rightarrow>
   nat list \<Rightarrow> real \<Rightarrow> real \<Rightarrow> cache \<Rightarrow> (move list \<times> cache) option" where
  "placeChildren pl gw [] left y c = Some ([], c)"
| "placeChildren pl gw (child # rest) left y c =
     (case pl child left y c of
        None \<Rightarrow> None
      | Some (ms, c1) \<Rightarrow>
          (case gw child c1 of
             None \<Rightarrow> None
           | Some (w, c2) \<Rightarrow>
               (case placeChildren pl gw rest (left + (w + PERSON_SPACE)) y c2 of
                  None \<Rightarrow> None
                | Some (ms', c3) \<Rightarrow> Some (ms @ ms', c3))))"

text \<open>
  The start of the children block:
  \<^verbatim>\<open>getChildrenWidth() > getPartnerWidth() ? x : x + (getPartnerWidth() - getChildrenWidth()) / 2\<close>,
  which calls \<^verbatim>\<open>getChildrenWidth\<close> a second time in its last branch.
\<close>

definition childrenLeft ::
  "nat \<Rightarrow> LinkedPerson list \<Rightarrow> (nat \<Rightarrow> real) \<Rightarrow> nat \<Rightarrow> real \<Rightarrow> cache \<Rightarrow> (real \<times> cache) option" where
  "childrenLeft f ps ow p x c =
     (case getChildrenWidth f ps ow p c of
        None \<Rightarrow> None
      | Some (cw, c1) \<Rightarrow>
          if cw > getPartnerWidth ps ow p then Some (x, c1)
          else (case getChildrenWidth f ps ow p c1 of
                  None \<Rightarrow> None
                | Some (cw', c2) \<Rightarrow> Some (x + (getPartnerWidth ps ow p - cw') / 2, c2)))"

fun place ::
  "nat \<Rightarrow> LinkedPerson list \<Rightarrow> (nat \<Rightarrow> real) \<Rightarrow> nat \<Rightarrow> real \<Rightarrow> real \<Rightarrow> cache \<Rightarrow>
   (move list \<times> cache) option" where
  "place 0 ps ow p x y c = None"
| "place (Suc f) ps ow p x y c =
     (case getWidth f ps ow p c of
        None \<Rightarrow> None
      | Some (w, c1) \<Rightarrow>
          let personLeft = x + (w - getPartnerWidth ps ow p) / 2 in
          (case partner (ps ! p) of
             None \<Rightarrow> Some ([\<lparr>box = p, dx = personLeft, dy = y\<rparr>], c1)
           | Some q \<Rightarrow>
               (case childrenLeft f ps ow p x c1 of
                  None \<Rightarrow> None
                | Some (left, c2) \<Rightarrow>
                    (case placeChildren (place f ps ow) (getWidth f ps ow) (children (ps ! p))
                            left (y + GEN_SPACE) c2 of
                       None \<Rightarrow> None
                     | Some (ms, c3) \<Rightarrow>
                         Some (\<lparr>box = p, dx = personLeft, dy = y\<rparr> #
                               \<lparr>box = q, dx = personLeft + ow p + PERSON_SPACE, dy = y\<rparr> # ms,
                               c3)))))"

text \<open>
  The lines are drawn from the bounding rectangles of the boxes as they stand when
  \<^verbatim>\<open>draw\<close> runs; \<open>rc p\<close> is \<^verbatim>\<open>getBoundingClientRect()\<close> of the box of \<open>p\<close>, with
  its fields \<^verbatim>\<open>left\<close>, \<^verbatim>\<open>right\<close>, \<^verbatim>\<open>top\<close> and \<^verbatim>\<open>bottom\<close>.
\<close>

record rect =
  leftEdge :: real
  rightEdge :: real
  topEdge :: real
  bottomEdge :: real

record line =
  x1 :: real
  y1 :: real
  x2 :: real
  y2 :: real

definition drawPartnerLine :: "rect \<Rightarrow> rect \<Rightarrow> line" where
  "drawPartnerLine rect1 rect2 =
     (let y = (topEdge rect1 + bottomEdge rect1) / 2
      in \<lparr>x1 = rightEdge rect1, y1 = y, x2 = leftEdge rect2 + 1, y2 = y\<rparr>)"

definition drawPartnerToChildrenLine :: "rect \<Rightarrow> rect \<Rightarrow> line" where
  "drawPartnerToChildrenLine rect1 rect2 =
     (let x = (rightEdge rect1 + leftEdge rect2) / 2; y = (topEdge rect1 + bottomEdge rect1) / 2
      in \<lparr>x1 = x, y1 = y, x2 = x, y2 = y + GEN_SPACE / 2\<rparr>)"

definition drawChildLine :: "rect \<Rightarrow> line" where
  "drawChildLine r =
     (let x = (leftEdge r + rightEdge r) / 2
      in \<lparr>x1 = x, y1 = topEdge r, x2 = x, y2 = (topEdge r + bottomEdge r - GEN_SPACE) / 2\<rparr>)"

definition drawOnlyChildLine :: "rect \<Rightarrow> rect \<Rightarrow> line" where
  "drawOnlyChildLine rect1 rect2 =
     (let x = (rightEdge rect1 + leftEdge rect2) / 2; y = (topEdge rect1 + bottomEdge rect1) / 2
      in \<lparr>x1 = x, y1 = y, x2 = x, y2 = y + GEN_SPACE + (topEdge rect1 - bottomEdge rect1) / 2\<rparr>)"

definition drawConnectChildrenLine :: "rect \<Rightarrow> rect \<Rightarrow> line" where
  "drawConnectChildrenLine rect1 rect2 =
     (let y = (topEdge rect1 + bottomEdge rect1 - GEN_SPACE) / 2
      in \<lparr>x1 = (leftEdge rect1 + rightEdge rect1) / 2 - 1, y1 = y,
          x2 = (leftEdge rect2 + rightEdge rect2) / 2 + 1, y2 = y\<rparr>)"

fun draw :: "nat \<Rightarrow> LinkedPerson list \<Rightarrow> (nat \<Rightarrow> rect) \<Rightarrow> nat \<Rightarrow> line list option" where
  "draw 0 ps rc p = None"
| "draw (Suc f) ps rc p =
     (case partner (ps ! p) of
        None \<Rightarrow> Some []
      | Some q \<Rightarrow>
          if length (children (ps ! p)) > 1 then
            (case mapCalls (\<lambda>child. map_option (\<lambda>ls. drawChildLine (rc child) # ls) (draw f ps rc child))
                    (children (ps ! p)) of
               None \<Rightarrow> None
             | Some ls \<Rightarrow>
                 Some (drawPartnerLine (rc p) (rc q) # drawPartnerToChildrenLine (rc p) (rc q) # ls @
                       [drawConnectChildrenLine (rc (children (ps ! p) ! 0)) (rc (last (children (ps ! p))))]))
          else if length (children (ps ! p)) = 1 then
            (case draw f ps rc (children (ps ! p) ! 0) of
               None \<Rightarrow> None
             | Some ls \<Rightarrow> Some (drawPartnerLine (rc p) (rc q) # drawOnlyChildLine (rc p) (rc q) # ls))
          else Some [drawPartnerLine (rc p) (rc q)])"

section \<open>What the merge loop computes\<close>

text \<open>
  The record at index \<open>i\<close> is the first with its id; the later records with the same id
  below index \<open>k\<close>; and the array after the callbacks at the indices below \<open>k\<close> have run.
\<close>

definition isFirst :: "UnlinkedPerson list \<Rightarrow> nat \<Rightarrow> bool" where
  "isFirst people i = (findIndex (\<lambda>p. ident p = ident (people ! i)) people = Some i)"

definition laterDuplicates :: "UnlinkedPerson list \<Rightarrow> nat \<Rightarrow> nat \<Rightarrow> UnlinkedPerson list" where
  "laterDuplicates people i k =
     map (\<lambda>j. people ! j) (filter (\<lambda>j. ident (people ! j) = ident (people ! i)) [Suc i..<k])"

definition mergedAt :: "UnlinkedPerson list \<Rightarrow> nat \<Rightarrow> nat \<Rightarrow> UnlinkedPerson" where
  "mergedAt people k i =
     (if isFirst people i then foldl mergeInto (people ! i) (laterDuplicates people i k)
      else people ! i)"

definition heapAfter :: "UnlinkedPerson list \<Rightarrow> nat \<Rightarrow> UnlinkedPerson list" where
  "heapAfter people k = map (mergedAt people k) [0..<length people]"

lemma ident_mergeInto [simp]: "ident (mergeInto d p) = ident d"
  by (simp add: mergeInto_def Let_def split: option.splits)

lemma name_mergeInto [simp]: "name (mergeInto d p) = name d"
  by (simp add: mergeInto_def Let_def split: option.splits)

lemma ident_foldl_mergeInto [simp]: "ident (foldl mergeInto d ps) = ident d"
  by (induction ps arbitrary: d) auto

lemma name_foldl_mergeInto [simp]: "name (foldl mergeInto d ps) = name d"
  by (induction ps arbitrary: d) auto

lemma ident_mergedAt [simp]: "ident (mergedAt people k i) = ident (people ! i)"
  by (simp add: mergedAt_def)

lemma length_heapAfter [simp]: "length (heapAfter people k) = length people"
  by (simp add: heapAfter_def)

lemma nth_heapAfter [simp]: "i < length people \<Longrightarrow> heapAfter people k ! i = mergedAt people k i"
  by (simp add: heapAfter_def)

lemma map_ident_heapAfter: "map ident (heapAfter people k) = map ident people"
  by (rule nth_equalityI) simp_all

lemma findIndex_heapAfter:
  "findIndex (\<lambda>p. ident p = v) (heapAfter people k) = findIndex (\<lambda>p. ident p = v) people"
  by (rule findIndex_cong_map) (rule map_ident_heapAfter)

lemma findIndex_self:
  assumes "k < length people"
  shows "\<exists>j\<le>k. findIndex (\<lambda>p. ident p = ident (people ! k)) people = Some j"
proof (cases "findIndex (\<lambda>p. ident p = ident (people ! k)) people")
  case None
  with assms show ?thesis by (auto simp: findIndex_None_iff)
next
  case (Some j)
  then have "\<forall>i<j. ident (people ! i) \<noteq> ident (people ! k)"
    by (simp add: findIndex_Some_iff)
  then have "\<not> k < j" by auto
  with Some show ?thesis by auto
qed

lemma isFirst_unique:
  "isFirst people i \<Longrightarrow> isFirst people j \<Longrightarrow> ident (people ! i) = ident (people ! j) \<Longrightarrow> i = j"
  by (simp add: isFirst_def)

lemma laterDuplicates_Suc:
  "laterDuplicates people i (Suc k) =
     laterDuplicates people i k @
       (if i < k \<and> ident (people ! k) = ident (people ! i) then [people ! k] else [])"
  by (auto simp: laterDuplicates_def)

lemma mergeStep_heapAfter:
  assumes k: "k < length people"
  shows "mergeStep k (heapAfter people k, filter (isFirst people) [0..<k]) =
           Inr (heapAfter people (Suc k), filter (isFirst people) [0..<Suc k])"
proof -
  obtain j where j: "j \<le> k" "findIndex (\<lambda>p. ident p = ident (people ! k)) people = Some j"
    using findIndex_self [OF k] by blast
  have jprops: "ident (people ! j) = ident (people ! k)" "j < length people"
    using j by (auto simp: findIndex_Some_iff)
  have jfirst: "isFirst people j"
    using j jprops by (simp add: isFirst_def)
  show ?thesis
  proof (cases "j = k")
    case True
    then have first: "isFirst people k" using j by (simp add: isFirst_def)
    have "heapAfter people (Suc k) = heapAfter people k"
    proof (rule nth_equalityI)
      fix i assume "i < length (heapAfter people (Suc k))"
      then have i: "i < length people" by simp
      have "i < k \<Longrightarrow> isFirst people i \<Longrightarrow> ident (people ! k) \<noteq> ident (people ! i)"
        using isFirst_unique [OF first, of i] by auto
      then have "mergedAt people (Suc k) i = mergedAt people k i"
        by (auto simp: mergedAt_def laterDuplicates_Suc)
      with i show "heapAfter people (Suc k) ! i = heapAfter people k ! i" by simp
    qed simp
    with True first j k show ?thesis
      by (simp add: mergeStep_def findIndex_heapAfter)
  next
    case False
    with j have jk: "j < k" by simp
    have notfirst: "\<not> isFirst people k"
      using j False by (simp add: isFirst_def)
    have "heapAfter people (Suc k) =
            (heapAfter people k)[j := mergeInto (heapAfter people k ! j) (heapAfter people k ! k)]"
    proof (rule nth_equalityI)
      fix i assume "i < length (heapAfter people (Suc k))"
      then have i: "i < length people" by simp
      show "heapAfter people (Suc k) ! i =
              (heapAfter people k)[j := mergeInto (heapAfter people k ! j) (heapAfter people k ! k)] ! i"
      proof (cases "i = j")
        case True
        with i k jk jfirst notfirst jprops show ?thesis
          by (simp add: mergedAt_def laterDuplicates_Suc)
      next
        case False
        have "isFirst people i \<Longrightarrow> ident (people ! k) \<noteq> ident (people ! i)"
          using isFirst_unique [OF jfirst, of i] False jprops by auto
        then have "mergedAt people (Suc k) i = mergedAt people k i"
          by (auto simp: mergedAt_def laterDuplicates_Suc)
        with i False show ?thesis by simp
      qed
    qed simp
    with False notfirst j k show ?thesis
      by (simp add: mergeStep_def findIndex_heapAfter)
  qed
qed

lemma mergeLoop_append:
  "mergeLoop (xs @ ys) st =
     (case mergeLoop xs st of Inl e \<Rightarrow> Inl e | Inr st' \<Rightarrow> mergeLoop ys st')"
  by (induction xs arbitrary: st) (auto split: sum.splits)

lemma heapAfter_0: "heapAfter people 0 = people"
  by (rule nth_equalityI) (auto simp: mergedAt_def laterDuplicates_def)

lemma mergeLoop_prefix:
  "k \<le> length people \<Longrightarrow>
     mergeLoop [0..<k] (people, []) = Inr (heapAfter people k, filter (isFirst people) [0..<k])"
proof (induction k)
  case 0
  then show ?case by (simp add: heapAfter_0)
next
  case (Suc k)
  then have "k < length people" by simp
  from mergeStep_heapAfter [OF this] Suc show ?case
    by (simp add: mergeLoop_append)
qed

definition mergedRecord :: "UnlinkedPerson list \<Rightarrow> nat \<Rightarrow> UnlinkedPerson" where
  "mergedRecord people i = foldl mergeInto (people ! i) (laterDuplicates people i (length people))"

lemma mergeDuplicates_eq:
  "mergeDuplicates people =
     Inr (map (mergedRecord people) (filter (isFirst people) [0..<length people]))"
  by (simp add: mergeDuplicates_def mergeLoop_prefix mergedRecord_def mergedAt_def)

section \<open>Properties of the merge\<close>

text \<open>
  The set of child ids of a record, and the first occurrences of the elements of a list,
  in order.
\<close>

definition childSet :: "UnlinkedPerson \<Rightarrow> string set" where
  "childSet p = (case children p of None \<Rightarrow> {} | Some cs \<Rightarrow> set cs)"

definition firstSeen :: "string list \<Rightarrow> string list" where
  "firstSeen xs = rev (remdups (rev xs))"

lemma remdups_snoc:
  "remdups (xs @ [c]) = remdups (filter (\<lambda>x. x \<noteq> c) xs) @ [c]"
  by (induction xs) auto

lemma firstSeen_Cons:
  "firstSeen (c # ys) = c # firstSeen (filter (\<lambda>x. x \<noteq> c) ys)"
  by (simp add: firstSeen_def remdups_snoc rev_filter)

lemma pushUnseen_step:
  "fold (\<lambda>child acc. if child \<in> set acc then acc else acc @ [child]) pc dc =
     dc @ firstSeen (filter (\<lambda>c. c \<notin> set dc) pc)"
proof (induction pc arbitrary: dc)
  case Nil
  then show ?case by (simp add: firstSeen_def)
next
  case (Cons c pc)
  show ?case
  proof (cases "c \<in> set dc")
    case True
    then show ?thesis by (simp add: Cons.IH)
  next
    case False
    have "filter (\<lambda>x. x \<noteq> c \<and> x \<notin> set dc) pc = filter (\<lambda>x. x \<noteq> c) (filter (\<lambda>x. x \<notin> set dc) pc)"
      by (simp add: conj_commute)
    then show ?thesis
      using False by (simp add: Cons.IH firstSeen_Cons)
  qed
qed

lemma pushUnseen_eq: "pushUnseen dc pc = dc @ firstSeen (filter (\<lambda>c. c \<notin> set dc) pc)"
  by (simp add: pushUnseen_def pushUnseen_step)

lemma set_pushUnseen: "set (pushUnseen dc pc) = set dc \<union> set pc"
  by (auto simp: pushUnseen_eq firstSeen_def)

lemma partner_mergeInto:
  "partner (mergeInto d p) = (if truthy (partner d) then partner d else partner p)"
  by (simp add: mergeInto_def Let_def split: option.splits)

lemma children_mergeInto:
  "children (mergeInto d p) =
     (case children d of
        None \<Rightarrow> children p
      | Some dc \<Rightarrow> (case children p of None \<Rightarrow> Some dc | Some pc \<Rightarrow> Some (pushUnseen dc pc)))"
  by (simp add: mergeInto_def Let_def split: option.splits)

lemma childSet_mergeInto: "childSet (mergeInto d p) = childSet d \<union> childSet p"
  by (simp add: childSet_def children_mergeInto set_pushUnseen split: option.splits)

lemma childSet_foldl_mergeInto:
  "childSet (foldl mergeInto d ps) = childSet d \<union> (\<Union>p\<in>set ps. childSet p)"
  by (induction ps arbitrary: d) (auto simp: childSet_mergeInto)

lemma map_nth_filter_upt:
  "map (\<lambda>j. xs ! j) (filter (\<lambda>j. P (xs ! j)) [k..<length xs]) = filter P (drop k xs)"
proof -
  have "map (\<lambda>j. xs ! j) [k..<length xs] = drop k xs"
    by (rule nth_equalityI) auto
  then have "filter P (drop k xs) = filter P (map (\<lambda>j. xs ! j) [k..<length xs])"
    by simp
  also have "\<dots> = map (\<lambda>j. xs ! j) (filter (\<lambda>j. P (xs ! j)) [k..<length xs])"
    by (simp add: filter_map comp_def)
  finally show ?thesis by simp
qed

lemma filter_eq_upt: "i < n \<Longrightarrow> filter (\<lambda>j. j = i) [0..<n] = [i]"
proof (induction n)
  case 0
  then show ?case by simp
next
  case (Suc n)
  show ?case
  proof (cases "i = n")
    case True
    have "filter (\<lambda>j. j = n) [0..<n] = []"
      by (simp add: filter_empty_conv)
    with True show ?thesis by simp
  next
    case False
    with Suc show ?thesis by simp
  qed
qed

lemma filter_upt_single:
  assumes "i < n" and "\<And>j. j < n \<Longrightarrow> P j \<longleftrightarrow> j = i"
  shows "filter P [0..<n] = [i]"
proof -
  have "filter P [0..<n] = filter (\<lambda>j. j = i) [0..<n]"
    using assms(2) by (intro filter_cong) auto
  then show ?thesis using assms(1) by (simp add: filter_eq_upt)
qed

lemma merged_by_id:
  assumes decomp: "people = xs @ d # rest" and fresh: "\<forall>r\<in>set xs. ident r \<noteq> ident d"
  shows "\<exists>m. mergeDuplicates people = Inr m \<and>
           filter (\<lambda>r. ident r = ident d) m =
             [foldl mergeInto d (filter (\<lambda>r. ident r = ident d) rest)]"
proof -
  let ?n = "length people" and ?i = "length xs"
  let ?firsts = "filter (isFirst people) [0..<?n]"
  have i: "?i < ?n" and di: "people ! ?i = d" by (simp_all add: decomp)
  have first: "isFirst people ?i"
    using fresh by (auto simp: isFirst_def findIndex_Some_iff decomp nth_append)
  have idi: "ident (people ! ?i) = ident d" by (simp only: di)
  have only: "(isFirst people j \<and> ident (people ! j) = ident d) \<longleftrightarrow> j = ?i" if "j < ?n" for j
  proof
    assume "isFirst people j \<and> ident (people ! j) = ident d"
    then show "j = ?i"
      using isFirst_unique [of people j ?i] first idi by simp
  next
    assume "j = ?i"
    then show "isFirst people j \<and> ident (people ! j) = ident d"
      using first idi by simp
  qed
  have "filter (\<lambda>r. ident r = ident d) (map (mergedRecord people) ?firsts) =
          map (mergedRecord people) (filter (\<lambda>j. ident (people ! j) = ident d) ?firsts)"
    by (simp add: filter_map comp_def mergedRecord_def)
  also have "filter (\<lambda>j. ident (people ! j) = ident d) ?firsts =
               filter (\<lambda>j. isFirst people j \<and> ident (people ! j) = ident d) [0..<?n]"
    by (simp add: conj_commute)
  also have "\<dots> = [?i]"
    by (rule filter_upt_single [OF i]) (rule only)
  finally have "filter (\<lambda>r. ident r = ident d) (map (mergedRecord people) ?firsts) =
                  [mergedRecord people ?i]"
    by simp
  moreover have "laterDuplicates people ?i ?n = filter (\<lambda>r. ident r = ident d) rest"
    unfolding laterDuplicates_def idi
    using map_nth_filter_upt [of people "\<lambda>r. ident r = ident d" "Suc (length xs)"]
    by (simp add: decomp)
  ultimately show ?thesis
    by (simp add: mergeDuplicates_eq mergedRecord_def di)
qed

lemma ids_merged:
  "mergeDuplicates people = Inr m \<Longrightarrow> distinct (map ident m) \<and> set (map ident m) = set (map ident people)"
proof -
  assume "mergeDuplicates people = Inr m"
  then have m: "m = map (mergedRecord people) (filter (isFirst people) [0..<length people])"
    by (simp add: mergeDuplicates_eq)
  have idm: "map ident m = map (\<lambda>i. ident (people ! i)) (filter (isFirst people) [0..<length people])"
    by (simp add: m mergedRecord_def)
  have "distinct (map ident m)"
    unfolding idm by (auto simp: distinct_map inj_on_def intro: isFirst_unique)
  moreover have "set (map ident m) = set (map ident people)"
  proof
    show "set (map ident m) \<subseteq> set (map ident people)"
      unfolding idm by auto
    show "set (map ident people) \<subseteq> set (map ident m)"
    proof
      fix x assume "x \<in> set (map ident people)"
      then obtain k where k: "k < length people" "x = ident (people ! k)"
        by (auto simp: in_set_conv_nth)
      from findIndex_self [OF k(1)] obtain j where
        j: "findIndex (\<lambda>p. ident p = ident (people ! k)) people = Some j" by blast
      then have "j < length people" "ident (people ! j) = ident (people ! k)"
        by (auto simp: findIndex_Some_iff)
      with j have "isFirst people j" by (simp add: isFirst_def)
      with \<open>j < length people\<close> have "j \<in> set (filter (isFirst people) [0..<length people])"
        by simp
      then have "ident (people ! j) \<in> set (map ident m)"
        unfolding idm by (simp only: set_map) (rule imageI)
      with \<open>ident (people ! j) = ident (people ! k)\<close> k
      show "x \<in> set (map ident m)" by simp
    qed
  qed
  ultimately show ?thesis by simp
qed

lemma childSet_merged:
  assumes "mergeDuplicates people = Inr m" and "r \<in> set m"
  shows "childSet r = (\<Union>p\<in>{p \<in> set people. ident p = ident r}. childSet p)"
proof -
  have "ident r \<in> set (map ident people)"
    using ids_merged [OF assms(1)] assms(2) by auto
  then have "\<exists>p\<in>set people. ident p = ident r" by auto
  then obtain xs d rest where decomp: "people = xs @ d # rest"
      and d: "ident d = ident r" and fresh: "\<forall>y\<in>set xs. ident y \<noteq> ident r"
    using split_list_first_prop [of people "\<lambda>p. ident p = ident r"] by auto
  from merged_by_id [OF decomp] fresh d assms(1)
  have f: "filter (\<lambda>y. ident y = ident r) m =
             [foldl mergeInto d (filter (\<lambda>y. ident y = ident r) rest)]"
    by auto
  have "r \<in> set (filter (\<lambda>y. ident y = ident r) m)"
    using assms(2) by simp
  then have "r = foldl mergeInto d (filter (\<lambda>y. ident y = ident r) rest)"
    unfolding f by simp
  then have "childSet r = childSet (foldl mergeInto d (filter (\<lambda>y. ident y = ident d) rest))"
    using d by simp
  also have "\<dots> = childSet d \<union> (\<Union>p\<in>{p \<in> set rest. ident p = ident r}. childSet p)"
    by (simp add: childSet_foldl_mergeInto d)
  also have "\<dots> = (\<Union>p\<in>{p \<in> set people. ident p = ident r}. childSet p)"
    using d fresh by (auto simp: decomp)
  finally show ?thesis .
qed

text \<open>
  Two sources that each hold one record of an id, with complementary fields: the merged
  list has one record of that id, with the partner of the one and the children of the
  other.
\<close>

lemma merge_complementary:
  assumes "ident b = ident a"
    and "\<forall>r\<in>set (xs @ ys @ zs @ ws). ident r \<noteq> ident a"
  shows "\<exists>m. mergeDuplicates (concat [xs @ a # ys, zs @ b # ws]) = Inr m \<and>
           filter (\<lambda>r. ident r = ident a) m = [mergeInto a b] \<and>
           (truthy (partner a) \<and> children a = None \<longrightarrow>
              partner (mergeInto a b) = partner a \<and> children (mergeInto a b) = children b) \<and>
           (\<not> truthy (partner a) \<and> children b = None \<longrightarrow>
              partner (mergeInto a b) = partner b \<and> children (mergeInto a b) = children a)"
proof -
  have dec: "concat [xs @ a # ys, zs @ b # ws] = xs @ a # (ys @ zs @ b # ws)" by simp
  have fresh: "\<forall>r\<in>set xs. ident r \<noteq> ident a" using assms(2) by simp
  have rest: "filter (\<lambda>r. ident r = ident a) (ys @ zs @ b # ws) = [b]"
    using assms by (auto simp: filter_empty_conv)
  have "\<exists>m. mergeDuplicates (concat [xs @ a # ys, zs @ b # ws]) = Inr m \<and>
           filter (\<lambda>r. ident r = ident a) m = [foldl mergeInto a [b]]"
    using merged_by_id [OF dec fresh] unfolding rest .
  then have "\<exists>m. mergeDuplicates (concat [xs @ a # ys, zs @ b # ws]) = Inr m \<and>
           filter (\<lambda>r. ident r = ident a) m = [mergeInto a b]"
    by simp
  moreover have "truthy (partner a) \<and> children a = None \<longrightarrow>
      partner (mergeInto a b) = partner a \<and> children (mergeInto a b) = children b"
    by (simp add: partner_mergeInto children_mergeInto)
  moreover have "\<not> truthy (partner a) \<and> children b = None \<longrightarrow>
      partner (mergeInto a b) = partner b \<and> children (mergeInto a b) = children a"
    by (simp add: partner_mergeInto children_mergeInto split: option.splits)
  ultimately show ?thesis by blast
qed

text \<open>
  Claim C5. The merge keeps, for every id, a single record: the first record with that id,
  into which the later records with the id are merged in order. Merging a later record
  keeps the name and the id, fills the partner in only where it is missing, and appends to
  the children the ids not seen yet, in first-seen order (a missing children list is taken
  over as it is). In particular a record with a partner and a later one with children merge
  into one record holding both, as \<open>merge_complementary\<close> above shows.
\<close>

theorem merge_first_canonical_fills_gaps:
  assumes "concat jsons = xs @ d # rest" and "\<forall>r\<in>set xs. ident r \<noteq> ident d"
  shows "\<exists>m. mergeDuplicates (concat jsons) = Inr m \<and>
           filter (\<lambda>r. ident r = ident d) m =
             [foldl mergeInto d (filter (\<lambda>r. ident r = ident d) rest)] \<and>
           (\<forall>c p. name (mergeInto c p) = name c \<and> ident (mergeInto c p) = ident c \<and>
              partner (mergeInto c p) = (if truthy (partner c) then partner c else partner p) \<and>
              children (mergeInto c p) =
                (case children c of
                   None \<Rightarrow> children p
                 | Some dc \<Rightarrow>
                     (case children p of
                        None \<Rightarrow> Some dc
                      | Some pc \<Rightarrow> Some (dc @ firstSeen (filter (\<lambda>x. x \<notin> set dc) pc)))))"
proof -
  from merged_by_id [OF assms]
  obtain m where "mergeDuplicates (concat jsons) = Inr m"
    "filter (\<lambda>r. ident r = ident d) m = [foldl mergeInto d (filter (\<lambda>r. ident r = ident d) rest)]"
    by blast
  moreover have "\<forall>c p. name (mergeInto c p) = name c \<and> ident (mergeInto c p) = ident c \<and>
      partner (mergeInto c p) = (if truthy (partner c) then partner c else partner p) \<and>
      children (mergeInto c p) =
        (case children c of
           None \<Rightarrow> children p
         | Some dc \<Rightarrow>
             (case children p of
                None \<Rightarrow> Some dc
              | Some pc \<Rightarrow> Some (dc @ firstSeen (filter (\<lambda>x. x \<notin> set dc) pc))))"
    by (simp add: partner_mergeInto children_mergeInto pushUnseen_eq split: option.splits)
  ultimately show ?thesis by blast
qed

theorem merge_first_canonical_fills_gaps_witness:
  "\<exists>m. mergeDuplicates
          (concat [[\<lparr>name = ''Ann'', ident = ''a'', partner = Some ''b'', children = None\<rparr>],
                   [\<lparr>name = ''A.'', ident = ''a'', partner = None, children = Some [''c'', ''d'']\<rparr>]]) = Inr m \<and>
       filter (\<lambda>r. ident r = ''a'') m =
         [\<lparr>name = ''Ann'', ident = ''a'', partner = Some ''b'', children = Some [''c'', ''d'']\<rparr>]"
proof -
  let ?a = "\<lparr>name = ''Ann'', ident = ''a'', partner = Some ''b'', children = None\<rparr> :: UnlinkedPerson"
  let ?b = "\<lparr>name = ''A.'', ident = ''a'', partner = None, children = Some [''c'', ''d'']\<rparr> :: UnlinkedPerson"
  have dec: "concat [[?a], [?b]] = [] @ ?a # [?b]" by simp
  have fresh: "\<forall>r\<in>set ([] :: UnlinkedPerson list). ident r \<noteq> ident ?a" by simp
  from merge_first_canonical_fills_gaps [OF dec fresh]
  obtain m where m: "mergeDuplicates (concat [[?a], [?b]]) = Inr m"
    "filter (\<lambda>r. ident r = ident ?a) m = [foldl mergeInto ?a (filter (\<lambda>r. ident r = ident ?a) [?b])]"
    by blast
  have "foldl mergeInto ?a (filter (\<lambda>r. ident r = ident ?a) [?b]) =
          \<lparr>name = ''Ann'', ident = ''a'', partner = Some ''b'', children = Some [''c'', ''d'']\<rparr>"
    by (simp add: mergeInto_def truthy_def)
  with m show ?thesis by simp
qed

text \<open>
  Claim C2 as stated fails: two sources that give the same person different children are
  merged into children sequences, and placeholders, in the order of the sources.
\<close>

theorem fromJSON_order_counterexample:
  "mset [[\<lparr>name = ''Ann'', ident = ''a'', partner = None, children = Some [''c'']\<rparr>],
         [\<lparr>name = ''Ann'', ident = ''a'', partner = None, children = Some [''d'']\<rparr>]] =
   mset [[\<lparr>name = ''Ann'', ident = ''a'', partner = None, children = Some [''d'']\<rparr>],
         [\<lparr>name = ''Ann'', ident = ''a'', partner = None, children = Some [''c'']\<rparr>]] \<and>
   fromJSON [[\<lparr>name = ''Ann'', ident = ''a'', partner = None, children = Some [''c'']\<rparr>],
             [\<lparr>name = ''Ann'', ident = ''a'', partner = None, children = Some [''d'']\<rparr>]] =
     Inr ([\<lparr>name = ''Ann'', ident = ''a'', partner = None, children = [1, 2]\<rparr>,
           \<lparr>name = ''c'', ident = ''c'', partner = None, children = []\<rparr>,
           \<lparr>name = ''d'', ident = ''d'', partner = None, children = []\<rparr>],
          [''Person not found with ID: c'', ''Person not found with ID: d'']) \<and>
   fromJSON [[\<lparr>name = ''Ann'', ident = ''a'', partner = None, children = Some [''d'']\<rparr>],
             [\<lparr>name = ''Ann'', ident = ''a'', partner = None, children = Some [''c'']\<rparr>]] =
     Inr ([\<lparr>name = ''Ann'', ident = ''a'', partner = None, children = [1, 2]\<rparr>,
           \<lparr>name = ''d'', ident = ''d'', partner = None, children = []\<rparr>,
           \<lparr>name = ''c'', ident = ''c'', partner = None, children = []\<rparr>],
          [''Person not found with ID: d'', ''Person not found with ID: c'']) \<and>
   fromJSON [[\<lparr>name = ''Ann'', ident = ''a'', partner = None, children = Some [''c'']\<rparr>],
             [\<lparr>name = ''Ann'', ident = ''a'', partner = None, children = Some [''d'']\<rparr>]] \<noteq>
   fromJSON [[\<lparr>name = ''Ann'', ident = ''a'', partner = None, children = Some [''d'']\<rparr>],
             [\<lparr>name = ''Ann'', ident = ''a'', partner = None, children = Some [''c'']\<rparr>]]"
proof -
  have "fromJSON [[\<lparr>name = ''Ann'', ident = ''a'', partner = None, children = Some [''c'']\<rparr>],
             [\<lparr>name = ''Ann'', ident = ''a'', partner = None, children = Some [''d'']\<rparr>]] =
     Inr ([\<lparr>name = ''Ann'', ident = ''a'', partner = None, children = [1, 2]\<rparr>,
           \<lparr>name = ''c'', ident = ''c'', partner = None, children = []\<rparr>,
           \<lparr>name = ''d'', ident = ''d'', partner = None, children = []\<rparr>],
          [''Person not found with ID: c'', ''Person not found with ID: d''])"
    by code_simp
  moreover have "fromJSON [[\<lparr>name = ''Ann'', ident = ''a'', partner = None, children = Some [''d'']\<rparr>],
             [\<lparr>name = ''Ann'', ident = ''a'', partner = None, children = Some [''c'']\<rparr>]] =
     Inr ([\<lparr>name = ''Ann'', ident = ''a'', partner = None, children = [1, 2]\<rparr>,
           \<lparr>name = ''d'', ident = ''d'', partner = None, children = []\<rparr>,
           \<lparr>name = ''c'', ident = ''c'', partner = None, children = []\<rparr>],
          [''Person not found with ID: d'', ''Person not found with ID: c''])"
    by code_simp
  ultimately show ?thesis by (simp add: add_mset_commute)
qed

text \<open>
  Claim C2, amended. For every ordering of the sources the records that \<^verbatim>\<open>fromJSON\<close>
  merges have the same set of ids, each id once, and for every id the same set of child
  ids. The order of the records and of the children, and the name and partner kept where
  the sources differ, follow the order of the sources.
\<close>

theorem merge_order_insensitive:
  assumes "mset jsons = mset jsons'"
  shows "\<exists>m m'. mergeDuplicates (concat jsons) = Inr m \<and>
           mergeDuplicates (concat jsons') = Inr m' \<and>
           distinct (map ident m) \<and> distinct (map ident m') \<and>
           set (map ident m) = set (map ident m') \<and>
           (\<forall>r\<in>set m. \<forall>r'\<in>set m'. ident r = ident r' \<longrightarrow> childSet r = childSet r')"
proof -
  obtain m m' where m: "mergeDuplicates (concat jsons) = Inr m"
      and m': "mergeDuplicates (concat jsons') = Inr m'"
    by (simp add: mergeDuplicates_eq)
  have "set jsons = set jsons'" using assms by (rule mset_eq_setD)
  then have same: "set (concat jsons) = set (concat jsons')" by simp
  have "set (map ident m) = set (map ident m')"
    using ids_merged [OF m] ids_merged [OF m'] same by simp
  moreover have "childSet r = childSet r'" if "r \<in> set m" "r' \<in> set m'" "ident r = ident r'" for r r'
  proof -
    have "childSet r = (\<Union>p\<in>{p \<in> set (concat jsons'). ident p = ident r'}. childSet p)"
      using childSet_merged [OF m that(1)] unfolding same that(3) .
    also have "\<dots> = childSet r'"
      using childSet_merged [OF m' that(2)] by (rule sym)
    finally show ?thesis .
  qed
  ultimately show ?thesis
    using m m' ids_merged [OF m] ids_merged [OF m'] by blast
qed

theorem merge_order_insensitive_witness:
  "\<exists>m m'. mergeDuplicates
             (concat [[\<lparr>name = ''Ann'', ident = ''a'', partner = None, children = Some [''c'']\<rparr>],
                      [\<lparr>name = ''Ann'', ident = ''a'', partner = None, children = Some [''d'']\<rparr>]]) = Inr m \<and>
           mergeDuplicates
             (concat [[\<lparr>name = ''Ann'', ident = ''a'', partner = None, children = Some [''d'']\<rparr>],
                      [\<lparr>name = ''Ann'', ident = ''a'', partner = None, children = Some [''c'']\<rparr>]]) = Inr m' \<and>
           distinct (map ident m) \<and> distinct (map ident m') \<and>
           set (map ident m) = set (map ident m') \<and>
           (\<forall>r\<in>set m. \<forall>r'\<in>set m'. ident r = ident r' \<longrightarrow> childSet r = childSet r')"
proof -
  let ?c = "\<lparr>name = ''Ann'', ident = ''a'', partner = None, children = Some [''c'']\<rparr> :: UnlinkedPerson"
  let ?d = "\<lparr>name = ''Ann'', ident = ''a'', partner = None, children = Some [''d'']\<rparr> :: UnlinkedPerson"
  have "mset [[?c], [?d]] = mset [[?d], [?c]]" by (simp add: add_mset_commute)
  from merge_order_insensitive [OF this] show ?thesis .
qed

section \<open>The linked graph is well formed\<close>

text \<open>
  Ids are distinct and every link refers to a person of the array: this holds all through
  the loop of \<^verbatim>\<open>linkPeople\<close>, whatever the records.
\<close>

definition wfLink :: "linkState \<Rightarrow> bool" where
  "wfLink st =
     (distinct (idsOf st) \<and>
      (\<forall>p\<in>set (linked st).
         (\<forall>r. partner p = Some r \<longrightarrow> r < length (idsOf st)) \<and>
         (\<forall>c\<in>set (children p). c < length (idsOf st))))"

definition wfGraph :: "LinkedPerson list \<Rightarrow> bool" where
  "wfGraph people =
     (distinct (map ident people) \<and>
      (\<forall>p\<in>set people.
         (\<forall>r. partner p = Some r \<longrightarrow> r < length people) \<and>
         (\<forall>c\<in>set (children p). c < length people)))"

lemma findPerson_at:
  "findIndex (\<lambda>i. i = s) (idsOf st) = Some r \<Longrightarrow> findPerson st s = (r, st)"
  by (simp add: findPerson_def)

lemma findPerson_new_fields:
  assumes "s \<notin> set (idsOf st)"
  shows "idsOf (snd (findPerson st s)) = idsOf st @ [s]"
    and "linked (snd (findPerson st s)) = linked st"
    and "pending (snd (findPerson st s)) =
           pending st @ [\<lparr>name = s, ident = s, partner = backInfer st s, children = Some []\<rparr>]"
    and "fst (findPerson st s) = length (idsOf st)"
  using assms by (simp_all add: findPerson_new idsOf_def)

lemma findPerson_found_fields:
  assumes "s \<in> set (idsOf st)"
  shows "snd (findPerson st s) = st"
    and "fst (findPerson st s) < length (idsOf st)"
    and "idsOf st ! fst (findPerson st s) = s"
proof -
  from assms obtain r where r: "findIndex (\<lambda>i. i = s) (idsOf st) = Some r"
    by (cases "findIndex (\<lambda>i. i = s) (idsOf st)") (auto simp: findIndex_None_iff)
  then have "findPerson st s = (r, st)" by (rule findPerson_at)
  moreover from r have "r < length (idsOf st)" "idsOf st ! r = s"
    by (simp_all add: findIndex_Some_iff)
  ultimately show "snd (findPerson st s) = st" "fst (findPerson st s) < length (idsOf st)"
    "idsOf st ! fst (findPerson st s) = s" by simp_all
qed

lemma findPerson_wf:
  assumes "wfLink st"
  shows "wfLink (snd (findPerson st s)) \<and>
         fst (findPerson st s) < length (idsOf (snd (findPerson st s))) \<and>
         linked (snd (findPerson st s)) = linked st"
proof (cases "s \<in> set (idsOf st)")
  case True
  from findPerson_found_fields [OF True] assms show ?thesis by simp
next
  case False
  note f = findPerson_new_fields [OF False]
  from assms False have "wfLink (snd (findPerson st s))"
    unfolding wfLink_def f by (auto simp: less_Suc_eq)
  then show ?thesis by (simp add: f)
qed

lemma pushChild_wf:
  assumes wf: "wfLink st" and ne: "linked st \<noteq> []"
  shows "wfLink (pushChild s st) \<and> linked (pushChild s st) \<noteq> []"
proof -
  let ?st = "snd (findPerson st s)" and ?r = "fst (findPerson st s)"
  from findPerson_wf [OF wf] have wf': "wfLink ?st" and r: "?r < length (idsOf ?st)"
    and l: "linked ?st = linked st" by simp_all
  let ?new = "(last (linked ?st))\<lparr>children := children (last (linked ?st)) @ [?r]\<rparr>"
  have lk: "linked (pushChild s st) = (linked ?st)[length (linked ?st) - 1 := ?new]"
    by (cases "findPerson st s") (simp add: pushChild_def)
  have lastin: "last (linked ?st) \<in> set (linked ?st)"
    using ne l by simp
  have newok: "(\<forall>q. partner ?new = Some q \<longrightarrow> q < length (idsOf ?st)) \<and>
               (\<forall>c\<in>set (children ?new). c < length (idsOf ?st))"
    using wf' lastin r unfolding wfLink_def by auto
  have "p \<in> set (linked ?st) \<or> p = ?new" if "p \<in> set (linked (pushChild s st))" for p
    using that set_update_subset_insert [of "linked ?st" "length (linked ?st) - 1" ?new]
    unfolding lk by auto
  with wf' newok have "wfLink (pushChild s st)"
    unfolding wfLink_def pushChild_fields by blast
  moreover have "linked (pushChild s st) \<noteq> []"
    using ne l unfolding lk by simp
  ultimately show ?thesis by simp
qed

lemma fold_pushChild_wf:
  "wfLink st \<Longrightarrow> linked st \<noteq> [] \<Longrightarrow> wfLink (fold pushChild cs st)"
proof (induction cs arbitrary: st)
  case Nil
  then show ?case by simp
next
  case (Cons c cs)
  from pushChild_wf [OF Cons.prems] Cons.IH [of "pushChild c st"] show ?case by simp
qed

lemma visit_wf:
  assumes wf: "wfLink st" and ne: "pending st \<noteq> []"
  shows "wfLink (visit st)"
proof -
  obtain person rest where pend: "pending st = person # rest"
    using ne by (cases "pending st") auto
  obtain p' st1 where lp: "linkPartner st person = (p', st1)" by force
  have st1: "wfLink st1 \<and> pending st1 \<noteq> [] \<and> hd (pending st1) = person \<and>
             (\<forall>r. p' = Some r \<longrightarrow> r < length (idsOf st1))"
  proof (cases "truthy (partner person)")
    case True
    with lp have "st1 = snd (findPerson st (the (partner person)))"
      "p' = Some (fst (findPerson st (the (partner person))))"
      by (simp_all add: linkPartner_def split: prod.splits)
    with findPerson_wf [OF wf, of "the (partner person)"] pend
      pending_findPerson_nonempty [of st "the (partner person)"]
      hd_pending_findPerson [of st "the (partner person)"]
    show ?thesis by simp
  next
    case False
    with lp have "st1 = st" "p' = None" by (simp_all add: linkPartner_def)
    with wf pend show ?thesis by simp
  qed
  then obtain rest1 where pend1: "pending st1 = person # rest1"
    by (cases "pending st1") auto
  define st2 where "st2 = st1\<lparr>linked := linked st1 @
       [\<lparr>name = name person, ident = ident person, partner = p', children = []\<rparr>],
       pending := tl (pending st1)\<rparr>"
  have ids2: "idsOf st2 = idsOf st1" by (simp add: st2_def idsOf_def pend1)
  have "wfLink st2"
    unfolding wfLink_def ids2 using st1 by (auto simp: st2_def wfLink_def)
  moreover have "linked st2 \<noteq> []" by (simp add: st2_def)
  moreover have "visit st = fold pushChild (case children person of None \<Rightarrow> [] | Some cs \<Rightarrow> cs) st2"
    by (simp add: visit_def pend lp st2_def split: option.splits)
  ultimately show ?thesis by (simp add: fold_pushChild_wf)
qed

lemma linkLoop_wf: "wfLink st \<Longrightarrow> wfLink (linkLoop st) \<and> pending (linkLoop st) = []"
proof (induction st rule: linkLoop.induct)
  case (1 st)
  show ?case
  proof (cases "pending st = []")
    case True
    with "1.prems" show ?thesis by (simp add: linkLoop.simps)
  next
    case False
    from visit_wf [OF "1.prems" False] have "wfLink (visit st)" .
    from "1.IH" [OF False this] False show ?thesis
      by (simp add: linkLoop.simps [of st])
  qed
qed

lemma fromJSON_wfGraph:
  assumes "fromJSON jsons = Inr (people, ws)"
  shows "wfGraph people"
proof -
  from assms obtain m where m: "mergeDuplicates (concat jsons) = Inr m"
    and p: "people = linked (linkLoop \<lparr>linked = [], pending = m, warnings = []\<rparr>)"
    by (auto simp: fromJSON_def linkPeople_def Let_def split: sum.splits)
  let ?st = "linkLoop \<lparr>linked = [], pending = m, warnings = []\<rparr>"
  have "wfLink \<lparr>linked = [], pending = m, warnings = []\<rparr>"
    using ids_merged [OF m] by (simp add: wfLink_def idsOf_def)
  from linkLoop_wf [OF this] have wf: "wfLink ?st" and fin: "pending ?st = []" by simp_all
  have "idsOf ?st = map ident people" by (simp add: idsOf_def fin p)
  with wf show ?thesis by (simp add: wfLink_def wfGraph_def p)
qed

text \<open>
  \<^verbatim>\<open>fromJSON\<close> returns for all parsed sources: the merge never reads a field of
  \<^verbatim>\<open>undefined\<close>, and the loop of \<^verbatim>\<open>linkPeople\<close> ends.
\<close>

lemma fromJSON_returns: "\<exists>people ws. fromJSON jsons = Inr (people, ws)"
  by (simp add: fromJSON_def mergeDuplicates_eq linkPeople_def Let_def)

section \<open>Properties of the linking\<close>

text \<open>
  The partner id behind every person of the array: the id of the person a partner link
  refers to, or the truthy partner id of a person not visited yet. \<open>entries\<close> pairs every
  id of the array with it.
\<close>

definition pidL :: "linkState \<Rightarrow> LinkedPerson \<Rightarrow> string option" where
  "pidL st p = (case partner p of None \<Rightarrow> None | Some r \<Rightarrow> Some (idsOf st ! r))"

definition pidP :: "UnlinkedPerson \<Rightarrow> string option" where
  "pidP p = (if truthy (partner p) then partner p else None)"

definition entries :: "linkState \<Rightarrow> (string \<times> string option) list" where
  "entries st = map (\<lambda>p. (ident p, pidL st p)) (linked st) @ map (\<lambda>p. (ident p, pidP p)) (pending st)"

definition childIds :: "UnlinkedPerson \<Rightarrow> string list" where
  "childIds p = (case children p of None \<Rightarrow> [] | Some cs \<Rightarrow> cs)"

text \<open>
  The invariant of the loop of \<^verbatim>\<open>linkPeople\<close>: ids are distinct and links point into the
  array; partner ids are mutual wherever the id named has a person; an id without a person
  is named as partner by one person only, whose own id is not empty; and no id without a
  person that is still to be resolved is the text \<^verbatim>\<open>[object Object]\<close>.
\<close>

definition refsValid :: "linkState \<Rightarrow> bool" where
  "refsValid st = (\<forall>p\<in>set (linked st). \<forall>r. partner p = Some r \<longrightarrow> r < length (idsOf st))"

definition mutualEntries :: "(string \<times> string option) list \<Rightarrow> bool" where
  "mutualEntries es = (\<forall>a s t. (a, Some s) \<in> set es \<longrightarrow> (s, t) \<in> set es \<longrightarrow> t = Some a)"

definition danglingOk :: "(string \<times> string option) list \<Rightarrow> bool" where
  "danglingOk es =
     (\<forall>a s. (a, Some s) \<in> set es \<longrightarrow> s \<notin> fst ` set es \<longrightarrow>
        a \<noteq> [] \<and> s \<noteq> objectString \<and> (\<forall>b. (b, Some s) \<in> set es \<longrightarrow> b = a))"

definition childIdsOk :: "string list \<Rightarrow> string list \<Rightarrow> bool" where
  "childIdsOk ids cs = (\<forall>s\<in>set cs. s \<notin> set ids \<longrightarrow> s \<noteq> objectString)"

definition linkInv :: "linkState \<Rightarrow> bool" where
  "linkInv st =
     (distinct (idsOf st) \<and> refsValid st \<and> mutualEntries (entries st) \<and> danglingOk (entries st) \<and>
      (\<forall>p\<in>set (pending st). childIdsOk (idsOf st) (childIds p)))"

lemma map_fst_entries [simp]: "map fst (entries st) = idsOf st"
  by (simp add: entries_def idsOf_def comp_def)

lemma fst_set_entries: "fst ` set (entries st) = set (idsOf st)"
  using map_fst_entries [of st] by (metis set_map)

lemma pointsAtPending_pidP: "pointsAtPending s p \<longleftrightarrow> pidP p = Some s"
  by (auto simp: pointsAtPending_def pidP_def)

lemma backInfer_pending:
  assumes "s \<notin> set (idsOf st)" and "s \<noteq> objectString" and "refsValid st"
  shows "backInfer st s = map_option ident (find (pointsAtPending s) (pending st))"
proof -
  have "\<not> pointsAtLinked st s p" if "p \<in> set (linked st)" for p
  proof (cases "partner p")
    case None
    then show ?thesis by (simp add: pointsAtLinked_def)
  next
    case (Some r)
    with that assms(3) have "r < length (idsOf st)" by (auto simp: refsValid_def)
    then have "idsOf st ! r \<in> set (idsOf st)" by simp
    with assms(1) have "idsOf st ! r \<noteq> s" by auto
    with Some assms(2) show ?thesis by (simp add: pointsAtLinked_def)
  qed
  then have "find (pointsAtLinked st s) (linked st) = None"
    by (simp add: find_None_iff)
  then show ?thesis by (simp add: backInfer_def)
qed

lemma no_linked_entry:
  assumes "s \<notin> set (idsOf st)" and "refsValid st" and "p \<in> set (linked st)"
  shows "pidL st p \<noteq> Some s"
proof (cases "partner p")
  case None
  then show ?thesis by (simp add: pidL_def)
next
  case (Some r)
  with assms have "r < length (idsOf st)" by (auto simp: refsValid_def)
  then have "idsOf st ! r \<in> set (idsOf st)" by simp
  with assms(1) Some show ?thesis by (auto simp: pidL_def)
qed

lemma backInfer_entries:
  assumes "s \<notin> set (idsOf st)" and "s \<noteq> objectString" and "refsValid st"
    and "danglingOk (entries st)"
  shows "(backInfer st s = None \<and> (\<forall>a. (a, Some s) \<notin> set (entries st))) \<or>
         (\<exists>a. backInfer st s = Some a \<and> a \<noteq> [] \<and> (a, Some s) \<in> set (entries st))"
proof (cases "find (pointsAtPending s) (pending st)")
  case None
  then have "\<forall>p\<in>set (pending st). pidP p \<noteq> Some s"
    by (simp add: find_None_iff pointsAtPending_pidP)
  moreover have "\<forall>p\<in>set (linked st). pidL st p \<noteq> Some s"
    using no_linked_entry [OF assms(1,3)] by blast
  ultimately have "\<forall>a. (a, Some s) \<notin> set (entries st)"
    by (auto simp: entries_def)
  with None show ?thesis
    by (simp add: backInfer_pending [OF assms(1-3)])
next
  case (Some q)
  then have q: "q \<in> set (pending st)" "pidP q = Some s"
    by (auto simp: find_Some_iff pointsAtPending_pidP)
  then have e: "(ident q, Some s) \<in> set (entries st)"
    by (force simp: entries_def)
  with assms(1,4) have "ident q \<noteq> []"
    unfolding danglingOk_def fst_set_entries by blast
  with e Some show ?thesis
    by (simp add: backInfer_pending [OF assms(1-3)])
qed

lemma entries_functional:
  "distinct (map fst es) \<Longrightarrow> (a, t) \<in> set es \<Longrightarrow> (a, t') \<in> set es \<Longrightarrow> t = t'"
  by (meson eq_key_imp_eq_value)

lemma mutual_add:
  assumes d: "distinct (map fst es)" and m: "mutualEntries es" and g: "danglingOk es"
    and s: "s \<notin> fst ` set es"
    and b: "(b = None \<and> (\<forall>a. (a, Some s) \<notin> set es)) \<or> (\<exists>a. b = Some a \<and> (a, Some s) \<in> set es)"
  shows "mutualEntries (es @ [(s, b)])"
  unfolding mutualEntries_def
proof (intro allI impI)
  fix a s1 t
  assume 1: "(a, Some s1) \<in> set (es @ [(s, b)])" and 2: "(s1, t) \<in> set (es @ [(s, b)])"
  from s have notin: "(s, u) \<notin> set es" for u by force
  consider (oo) "(a, Some s1) \<in> set es" "(s1, t) \<in> set es"
    | (on) "(a, Some s1) \<in> set es" "s1 = s" "t = b"
    | (no) "a = s" "b = Some s1" "(s1, t) \<in> set es"
    | (nn) "a = s" "b = Some s1" "s1 = s"
    using 1 2 by auto
  then show "t = Some a"
  proof cases
    case oo
    with m show ?thesis unfolding mutualEntries_def by blast
  next
    case on
    with b obtain a' where a': "b = Some a'" "(a', Some s) \<in> set es" by auto
    from g a'(2) s on(1,2) have "a = a'" unfolding danglingOk_def by blast
    with on a' show ?thesis by simp
  next
    case no
    with b have "(s1, Some s) \<in> set es" by auto
    from entries_functional [OF d no(3) this] no show ?thesis by simp
  next
    case nn
    with b have "(s, Some s) \<in> set es" by auto
    with notin show ?thesis by blast
  qed
qed

lemma dangling_add:
  assumes g: "danglingOk es" and s: "s \<notin> fst ` set es"
    and b: "(b = None \<and> (\<forall>a. (a, Some s) \<notin> set es)) \<or> (\<exists>a. b = Some a \<and> (a, Some s) \<in> set es)"
  shows "danglingOk (es @ [(s, b)])"
  unfolding danglingOk_def
proof (intro allI impI)
  fix a s1
  assume 1: "(a, Some s1) \<in> set (es @ [(s, b)])" and 2: "s1 \<notin> fst ` set (es @ [(s, b)])"
  from 2 have s1: "s1 \<notin> fst ` set es" "s1 \<noteq> s" by auto
  have bin: "b = Some u \<Longrightarrow> u \<in> fst ` set es" for u
    using b by force
  with 1 s1 have old: "(a, Some s1) \<in> set es" by auto
  from g old s1(1) have *: "a \<noteq> [] \<and> s1 \<noteq> objectString \<and> (\<forall>c. (c, Some s1) \<in> set es \<longrightarrow> c = a)"
    unfolding danglingOk_def by blast
  have "c = a" if "(c, Some s1) \<in> set (es @ [(s, b)])" for c
    using that * bin s1 by auto
  with * show "a \<noteq> [] \<and> s1 \<noteq> objectString \<and> (\<forall>c. (c, Some s1) \<in> set (es @ [(s, b)]) \<longrightarrow> c = a)"
    by blast
qed

lemma pidL_append:
  "refsValid st \<Longrightarrow> p \<in> set (linked st) \<Longrightarrow> idsOf st' = idsOf st @ xs \<Longrightarrow> pidL st' p = pidL st p"
  by (auto simp: pidL_def refsValid_def nth_append split: option.splits)

lemma entries_placeholder:
  assumes "s \<notin> set (idsOf st)" and "refsValid st"
  shows "entries (snd (findPerson st s)) =
           entries st @ [(s, pidP \<lparr>name = s, ident = s, partner = backInfer st s, children = Some []\<rparr>)]"
proof -
  let ?st = "snd (findPerson st s)"
  have "map (\<lambda>p. (ident p, pidL ?st p)) (linked st) = map (\<lambda>p. (ident p, pidL st p)) (linked st)"
    using pidL_append [OF assms(2) _ findPerson_new_fields(1) [OF assms(1)]] by simp
  then show ?thesis
    by (simp add: entries_def findPerson_new_fields [OF assms(1)])
qed

lemma findPerson_inv:
  assumes inv: "linkInv st" and ok: "s \<notin> set (idsOf st) \<longrightarrow> s \<noteq> objectString"
  shows "linkInv (snd (findPerson st s)) \<and>
         fst (findPerson st s) < length (idsOf (snd (findPerson st s))) \<and>
         idsOf (snd (findPerson st s)) ! fst (findPerson st s) = s \<and>
         linked (snd (findPerson st s)) = linked st \<and>
         set (idsOf st) \<subseteq> set (idsOf (snd (findPerson st s)))"
proof (cases "s \<in> set (idsOf st)")
  case True
  from findPerson_found_fields [OF True] inv show ?thesis by simp
next
  case False
  let ?st = "snd (findPerson st s)"
  let ?np = "\<lparr>name = s, ident = s, partner = backInfer st s, children = Some []\<rparr> :: UnlinkedPerson"
  note f = findPerson_new_fields [OF False]
  from inv have d: "distinct (idsOf st)" and rv: "refsValid st" and m: "mutualEntries (entries st)"
    and g: "danglingOk (entries st)" and c: "\<forall>p\<in>set (pending st). childIdsOk (idsOf st) (childIds p)"
    by (simp_all add: linkInv_def)
  from False ok have nq: "s \<noteq> objectString" by simp
  from backInfer_entries [OF False nq rv g]
  have b: "(backInfer st s = None \<and> (\<forall>a. (a, Some s) \<notin> set (entries st))) \<or>
           (\<exists>a. backInfer st s = Some a \<and> a \<noteq> [] \<and> (a, Some s) \<in> set (entries st))" .
  then have pid: "pidP ?np = backInfer st s"
    by (auto simp: pidP_def truthy_def)
  have e: "entries ?st = entries st @ [(s, backInfer st s)]"
    using entries_placeholder [OF False rv] pid by simp
  have sfst: "s \<notin> fst ` set (entries st)"
    using False by (simp add: fst_set_entries)
  have b': "(backInfer st s = None \<and> (\<forall>a. (a, Some s) \<notin> set (entries st))) \<or>
           (\<exists>a. backInfer st s = Some a \<and> (a, Some s) \<in> set (entries st))"
    using b by blast
  have d': "distinct (idsOf ?st)" using d False by (simp add: f)
  have rv': "refsValid ?st" using rv by (auto simp: refsValid_def f)
  have m': "mutualEntries (entries ?st)"
    unfolding e using d m g sfst b' by (intro mutual_add) simp_all
  have g': "danglingOk (entries ?st)"
    unfolding e using g sfst b' by (rule dangling_add)
  have c': "\<forall>p\<in>set (pending ?st). childIdsOk (idsOf ?st) (childIds p)"
    using c by (auto simp: f childIdsOk_def childIds_def)
  from d' rv' m' g' c' have "linkInv ?st" by (simp add: linkInv_def)
  then show ?thesis by (auto simp: f)
qed

lemma linkInv_same_core:
  assumes "linkInv st" and "map (\<lambda>p. (ident p, partner p)) (linked st') = map (\<lambda>p. (ident p, partner p)) (linked st)"
    and "pending st' = pending st"
  shows "linkInv st'"
proof -
  let ?f = "\<lambda>p::LinkedPerson. (ident p, partner p)"
  have "map fst (map ?f (linked st')) = map fst (map ?f (linked st))"
    using assms(2) by (rule arg_cong)
  then have ids: "map ident (linked st') = map ident (linked st)"
    by (simp add: comp_def)
  have "map snd (map ?f (linked st')) = map snd (map ?f (linked st))"
    using assms(2) by (rule arg_cong)
  then have ps: "map partner (linked st') = map partner (linked st)"
    by (simp add: comp_def)
  have i: "idsOf st' = idsOf st" by (simp add: idsOf_def ids assms(3))
  let ?h = "\<lambda>e. (fst e, case snd e of None \<Rightarrow> None | Some r \<Rightarrow> Some (idsOf st ! r))"
  have "map ?h (map ?f (linked st')) = map ?h (map ?f (linked st))"
    using assms(2) by (rule arg_cong)
  then have "map (\<lambda>p. (ident p, pidL st' p)) (linked st') = map (\<lambda>p. (ident p, pidL st p)) (linked st)"
    unfolding pidL_def i by (simp add: comp_def)
  then have e: "entries st' = entries st" by (simp add: entries_def assms(3))
  have "set (map partner (linked st')) = set (map partner (linked st))"
    using ps by simp
  then have "partner ` set (linked st') = partner ` set (linked st)"
    by simp
  then have r: "refsValid st' = refsValid st"
    unfolding refsValid_def i by (metis (no_types, lifting) image_iff)
  from assms(1) show ?thesis by (simp add: linkInv_def i e r assms(3))
qed

lemma map_update_last_children:
  "map (\<lambda>p. (ident p, partner p)) (xs[length xs - Suc 0 := (last xs)\<lparr>children := cs\<rparr>]) =
   map (\<lambda>p::LinkedPerson. (ident p, partner p)) xs"
proof (cases "xs = []")
  case True
  then show ?thesis by simp
next
  case False
  then show ?thesis
    by (simp add: map_update last_conv_nth list_update_same_conv)
qed

lemma pushChild_inv:
  assumes inv: "linkInv st" and ne: "linked st \<noteq> []"
    and ok: "s \<notin> set (idsOf st) \<longrightarrow> s \<noteq> objectString"
  shows "linkInv (pushChild s st) \<and> linked (pushChild s st) \<noteq> [] \<and>
         set (idsOf st) \<subseteq> set (idsOf (pushChild s st))"
proof -
  let ?st = "snd (findPerson st s)"
  from findPerson_inv [OF inv ok] have inv': "linkInv ?st" and l: "linked ?st = linked st"
    and sub: "set (idsOf st) \<subseteq> set (idsOf ?st)" by simp_all
  have core: "map (\<lambda>p. (ident p, partner p)) (linked (pushChild s st)) =
              map (\<lambda>p. (ident p, partner p)) (linked ?st)"
    by (simp add: pushChild_def map_update_last_children split: prod.splits)
  have pend: "pending (pushChild s st) = pending ?st"
    by (simp add: pushChild_def split: prod.splits)
  from linkInv_same_core [OF inv' core pend] have "linkInv (pushChild s st)" .
  moreover have "linked (pushChild s st) \<noteq> []"
    using ne l by (cases "findPerson st s") (simp add: pushChild_def)
  moreover have "set (idsOf st) \<subseteq> set (idsOf (pushChild s st))"
    using sub by (simp add: pushChild_fields)
  ultimately show ?thesis by simp
qed

lemma childIdsOk_mono: "set ids \<subseteq> set ids' \<Longrightarrow> childIdsOk ids cs \<Longrightarrow> childIdsOk ids' cs"
  by (auto simp: childIdsOk_def)

lemma fold_pushChild_inv:
  "linkInv st \<Longrightarrow> linked st \<noteq> [] \<Longrightarrow> childIdsOk (idsOf st) cs \<Longrightarrow>
     linkInv (fold pushChild cs st)"
proof (induction cs arbitrary: st)
  case Nil
  then show ?case by simp
next
  case (Cons c cs)
  from Cons.prems(3) have ok: "c \<notin> set (idsOf st) \<longrightarrow> c \<noteq> objectString"
    and rest: "childIdsOk (idsOf st) cs"
    by (simp_all add: childIdsOk_def)
  from pushChild_inv [OF Cons.prems(1,2) ok]
  have 1: "linkInv (pushChild c st)" and 2: "linked (pushChild c st) \<noteq> []"
    and 3: "set (idsOf st) \<subseteq> set (idsOf (pushChild c st))" by simp_all
  from Cons.IH [OF 1 2 childIdsOk_mono [OF 3 rest]] show ?case by simp
qed

lemma move_inv:
  assumes inv: "linkInv st1" and pend: "pending st1 = person # rest"
    and p': "p' = (if truthy (partner person) then Some r else None)"
    and r: "truthy (partner person) \<longrightarrow> r < length (idsOf st1) \<and> idsOf st1 ! r = the (partner person)"
  shows "linkInv (st1\<lparr>linked := linked st1 @
                        [\<lparr>name = name person, ident = ident person, partner = p', children = []\<rparr>],
                      pending := tl (pending st1)\<rparr>)"
proof -
  let ?np = "\<lparr>name = name person, ident = ident person, partner = p', children = []\<rparr> :: LinkedPerson"
  let ?st = "st1\<lparr>linked := linked st1 @ [?np], pending := rest\<rparr>"
  have ids: "idsOf ?st = idsOf st1" by (simp add: idsOf_def pend)
  have old: "pidL ?st p = pidL st1 p" for p unfolding pidL_def ids ..
  have new: "pidL st1 ?np = pidP person"
  proof (cases "truthy (partner person)")
    case True
    then obtain s where "partner person = Some s" by (auto simp: truthy_def split: option.splits)
    with True r p' show ?thesis unfolding pidL_def by (simp add: pidP_def)
  next
    case False
    with p' show ?thesis by (simp add: pidL_def pidP_def)
  qed
  have e: "entries ?st = entries st1"
    by (simp add: entries_def old new pend)
  from inv have rv: "refsValid st1" by (simp add: linkInv_def)
  have rv': "refsValid ?st"
    unfolding refsValid_def ids using rv r p' by (auto simp: refsValid_def split: if_splits)
  from inv have "linkInv ?st"
    unfolding linkInv_def ids e using rv' by (simp add: pend)
  then show ?thesis by (simp add: pend)
qed

lemma visit_inv:
  assumes inv: "linkInv st" and ne: "pending st \<noteq> []"
  shows "linkInv (visit st)"
proof -
  obtain person rest where pend: "pending st = person # rest"
    using ne by (cases "pending st") auto
  obtain p' st1 where lp: "linkPartner st person = (p', st1)" by force
  define r where "r = fst (findPerson st (the (partner person)))"
  have st1: "linkInv st1 \<and> pending st1 \<noteq> [] \<and> hd (pending st1) = person \<and>
             p' = (if truthy (partner person) then Some r else None) \<and>
             (truthy (partner person) \<longrightarrow> r < length (idsOf st1) \<and> idsOf st1 ! r = the (partner person))"
  proof (cases "truthy (partner person)")
    case True
    then obtain s where s: "partner person = Some s" by (auto simp: truthy_def split: option.splits)
    with True have "(ident person, Some s) \<in> set (entries st)"
      by (simp add: entries_def pend pidP_def)
    with inv have ok: "s \<notin> set (idsOf st) \<longrightarrow> s \<noteq> objectString"
      unfolding linkInv_def danglingOk_def fst_set_entries by blast
    from lp True s have "st1 = snd (findPerson st s)" "p' = Some r"
      by (simp_all add: linkPartner_def r_def split: prod.splits)
    with findPerson_inv [OF inv ok] True s pend
      pending_findPerson_nonempty [of st s] hd_pending_findPerson [of st s]
    show ?thesis by (simp add: r_def)
  next
    case False
    with lp have "st1 = st" "p' = None" by (simp_all add: linkPartner_def)
    with False inv pend show ?thesis by simp
  qed
  then obtain rest1 where pend1: "pending st1 = person # rest1"
    by (cases "pending st1") auto
  define st2 where "st2 = st1\<lparr>linked := linked st1 @
       [\<lparr>name = name person, ident = ident person, partner = p', children = []\<rparr>],
       pending := tl (pending st1)\<rparr>"
  have inv2: "linkInv st2"
    unfolding st2_def using st1 pend1 by (intro move_inv [where r = r]) simp_all
  have ids2: "idsOf st2 = idsOf st1" by (simp add: st2_def idsOf_def pend1)
  have "childIdsOk (idsOf st1) (childIds person)"
    using st1 pend1 by (simp add: linkInv_def)
  then have ok2: "childIdsOk (idsOf st2) (childIds person)" by (simp add: ids2)
  have ne2: "linked st2 \<noteq> []" by (simp add: st2_def)
  have "visit st = fold pushChild (childIds person) st2"
    by (simp add: visit_def pend lp st2_def childIds_def split: option.splits)
  with fold_pushChild_inv [OF inv2 ne2 ok2] show ?thesis by simp
qed

lemma linkLoop_inv: "linkInv st \<Longrightarrow> linkInv (linkLoop st) \<and> pending (linkLoop st) = []"
proof (induction st rule: linkLoop.induct)
  case (1 st)
  show ?case
  proof (cases "pending st = []")
    case True
    with "1.prems" show ?thesis by (simp add: linkLoop.simps)
  next
    case False
    from visit_inv [OF "1.prems" False] have "linkInv (visit st)" .
    from "1.IH" [OF False this] False show ?thesis
      by (simp add: linkLoop.simps [of st])
  qed
qed

lemma linkInv_symmetric:
  assumes inv: "linkInv st" and fin: "pending st = []"
    and i: "i < length (linked st)" and p: "partner (linked st ! i) = Some r"
  shows "r < length (linked st) \<and> partner (linked st ! r) = Some i"
proof -
  from inv have d: "distinct (idsOf st)" and rv: "refsValid st" and m: "mutualEntries (entries st)"
    by (simp_all add: linkInv_def)
  have ids: "idsOf st = map ident (linked st)" by (simp add: idsOf_def fin)
  have es: "entries st = map (\<lambda>p. (ident p, pidL st p)) (linked st)"
    by (simp add: entries_def fin)
  from rv i p have r: "r < length (linked st)"
    by (auto simp: refsValid_def ids)
  have "(ident (linked st ! i), Some (idsOf st ! r)) \<in> set (entries st)"
    unfolding es using i p by (force simp: pidL_def in_set_conv_nth)
  moreover have "(idsOf st ! r, pidL st (linked st ! r)) \<in> set (entries st)"
    unfolding es using r by (force simp: ids in_set_conv_nth)
  ultimately have "pidL st (linked st ! r) = Some (ident (linked st ! i))"
    using m unfolding mutualEntries_def by blast
  then obtain r' where r': "partner (linked st ! r) = Some r'" "idsOf st ! r' = ident (linked st ! i)"
    by (auto simp: pidL_def split: option.splits)
  with rv r have "r' < length (idsOf st)"
    by (auto simp: refsValid_def)
  moreover have "idsOf st ! i = ident (linked st ! i)" "i < length (idsOf st)"
    using i by (simp_all add: ids)
  ultimately have "r' = i"
    using d r'(2) nth_eq_iff_index_eq [of "idsOf st" r' i] by simp
  with r r' show ?thesis by simp
qed

text \<open>
  Merged records whose partner ids are mutual: a record named as partner names the other
  one back; an id without a record is named as partner by one record only, which has a
  non-empty id; and no id without a record, named as partner or child, is the text
  \<^verbatim>\<open>[object Object]\<close>.
\<close>

definition mutualRecords :: "UnlinkedPerson list \<Rightarrow> bool" where
  "mutualRecords rs =
     ((\<forall>a\<in>set rs. \<forall>b\<in>set rs. pidP a = Some (ident b) \<longrightarrow> pidP b = Some (ident a)) \<and>
      (\<forall>a\<in>set rs. \<forall>s. pidP a = Some s \<longrightarrow> s \<notin> ident ` set rs \<longrightarrow>
         ident a \<noteq> [] \<and> s \<noteq> objectString \<and>
         (\<forall>b\<in>set rs. pidP b = Some s \<longrightarrow> ident b = ident a)) \<and>
      (\<forall>a\<in>set rs. \<forall>s\<in>set (childIds a). s \<notin> ident ` set rs \<longrightarrow> s \<noteq> objectString))"

lemma linkInv_initial:
  assumes d: "distinct (map ident rs)" and m: "mutualRecords rs"
  shows "linkInv \<lparr>linked = [], pending = rs, warnings = []\<rparr>"
proof -
  let ?st = "\<lparr>linked = [], pending = rs, warnings = []\<rparr>"
  have ids: "idsOf ?st = map ident rs" by (simp add: idsOf_def)
  have es: "entries ?st = map (\<lambda>p. (ident p, pidP p)) rs" by (simp add: entries_def)
  from m have h1: "\<And>a b. a \<in> set rs \<Longrightarrow> b \<in> set rs \<Longrightarrow> pidP a = Some (ident b) \<Longrightarrow> pidP b = Some (ident a)"
    and h2: "\<And>a s. a \<in> set rs \<Longrightarrow> pidP a = Some s \<Longrightarrow> s \<notin> ident ` set rs \<Longrightarrow>
               ident a \<noteq> [] \<and> s \<noteq> objectString \<and> (\<forall>b\<in>set rs. pidP b = Some s \<longrightarrow> ident b = ident a)"
    and h3: "\<And>a s. a \<in> set rs \<Longrightarrow> s \<in> set (childIds a) \<Longrightarrow> s \<notin> ident ` set rs \<Longrightarrow> s \<noteq> objectString"
    unfolding mutualRecords_def by blast+
  have "refsValid ?st" by (simp add: refsValid_def)
  moreover have "mutualEntries (entries ?st)"
    unfolding mutualEntries_def es
  proof (intro allI impI)
    fix a s t
    assume "(a, Some s) \<in> set (map (\<lambda>p. (ident p, pidP p)) rs)"
      and "(s, t) \<in> set (map (\<lambda>p. (ident p, pidP p)) rs)"
    then obtain x y where x: "x \<in> set rs" "(a, Some s) = (ident x, pidP x)"
      and y: "y \<in> set rs" "(s, t) = (ident y, pidP y)" by auto
    from x(2) y(2) have "a = ident x" "pidP x = Some (ident y)" "t = pidP y" by simp_all
    with h1 [OF x(1) y(1)] show "t = Some a" by simp
  qed
  moreover have "danglingOk (entries ?st)"
    unfolding danglingOk_def
  proof (intro allI impI)
    fix a s
    assume 1: "(a, Some s) \<in> set (entries ?st)" and 2: "s \<notin> fst ` set (entries ?st)"
    from 1 obtain x where "x \<in> set rs" "(a, Some s) = (ident x, pidP x)"
      unfolding es by auto
    then have x: "x \<in> set rs" "a = ident x" "pidP x = Some s" by simp_all
    from 2 have s: "s \<notin> ident ` set rs"
      unfolding fst_set_entries ids by simp
    from h2 [OF x(1,3) s] have *: "ident x \<noteq> []" "s \<noteq> objectString"
      "\<forall>b\<in>set rs. pidP b = Some s \<longrightarrow> ident b = ident x" by simp_all
    have "b = a" if "(b, Some s) \<in> set (entries ?st)" for b
    proof -
      from that obtain y where "y \<in> set rs" "(b, Some s) = (ident y, pidP y)"
        unfolding es by auto
      then have y: "y \<in> set rs" "b = ident y" "pidP y = Some s" by simp_all
      from *(3) y(1,3) have "ident y = ident x" by blast
      then show ?thesis unfolding y(2) x(2) .
    qed
    then have "\<forall>b. (b, Some s) \<in> set (entries ?st) \<longrightarrow> b = a" by blast
    moreover from *(1) have "a \<noteq> []" unfolding x(2) .
    ultimately show "a \<noteq> [] \<and> s \<noteq> objectString \<and> (\<forall>b. (b, Some s) \<in> set (entries ?st) \<longrightarrow> b = a)"
      using *(2) by blast
  qed
  moreover have "\<forall>p\<in>set (pending ?st). childIdsOk (idsOf ?st) (childIds p)"
    unfolding childIdsOk_def ids using h3 by auto
  ultimately show ?thesis
    using d by (simp add: linkInv_def ids)
qed

text \<open>
  Claim C1 as stated fails: a record may name a partner whose own record names nobody.
\<close>

theorem partner_one_sided_counterexample:
  "fromJSON [[\<lparr>name = ''Ann'', ident = ''a'', partner = Some ''b'', children = None\<rparr>,
              \<lparr>name = ''Bob'', ident = ''b'', partner = None, children = None\<rparr>]] =
     Inr ([\<lparr>name = ''Ann'', ident = ''a'', partner = Some 1, children = []\<rparr>,
           \<lparr>name = ''Bob'', ident = ''b'', partner = None, children = []\<rparr>], []) \<and>
   partner ([\<lparr>name = ''Ann'', ident = ''a'', partner = Some 1, children = []\<rparr>,
             \<lparr>name = ''Bob'', ident = ''b'', partner = None, children = []\<rparr>] ! 0) = Some (1::nat) \<and>
   partner ([\<lparr>name = ''Ann'', ident = ''a'', partner = Some 1, children = []\<rparr>,
             \<lparr>name = ''Bob'', ident = ''b'', partner = None, children = []\<rparr>] ! 1) \<noteq> Some (0::nat)"
proof -
  have "fromJSON [[\<lparr>name = ''Ann'', ident = ''a'', partner = Some ''b'', children = None\<rparr>,
              \<lparr>name = ''Bob'', ident = ''b'', partner = None, children = None\<rparr>]] =
     Inr ([\<lparr>name = ''Ann'', ident = ''a'', partner = Some 1, children = []\<rparr>,
           \<lparr>name = ''Bob'', ident = ''b'', partner = None, children = []\<rparr>], [])"
    by code_simp
  then show ?thesis by simp
qed

text \<open>
  Claim C1, amended. When the merged records are mutual in the sense of
  \<open>mutualRecords\<close>, the partner links of the graph that \<^verbatim>\<open>fromJSON\<close> returns are
  symmetric: if the partner link of A is B, then B is a person of the graph and the
  partner link of B is A. This covers the placeholder synthesised for a partner id that
  has no record.
\<close>

theorem partner_links_symmetric:
  assumes "mergeDuplicates (concat jsons) = Inr records" and "mutualRecords records"
    and "fromJSON jsons = Inr (people, ws)"
  shows "\<forall>i<length people. \<forall>r. partner (people ! i) = Some r \<longrightarrow>
           r < length people \<and> partner (people ! r) = Some i"
proof -
  let ?st = "linkLoop \<lparr>linked = [], pending = records, warnings = []\<rparr>"
  from ids_merged [OF assms(1)] have "distinct (map ident records)" by simp
  from linkLoop_inv [OF linkInv_initial [OF this assms(2)]]
  have inv: "linkInv ?st" and fin: "pending ?st = []" by simp_all
  from assms(1,3) have "people = linked ?st"
    by (simp add: fromJSON_def linkPeople_def Let_def)
  with linkInv_symmetric [OF inv fin] show ?thesis by blast
qed

theorem partner_links_symmetric_witness:
  "fromJSON [[\<lparr>name = ''Ann'', ident = ''a'', partner = Some ''b'', children = None\<rparr>,
              \<lparr>name = ''Bob'', ident = ''b'', partner = Some ''a'', children = Some [''c'']\<rparr>],
             [\<lparr>name = ''Eve'', ident = ''e'', partner = Some ''x'', children = None\<rparr>]] =
     Inr ([\<lparr>name = ''Ann'', ident = ''a'', partner = Some 1, children = []\<rparr>,
           \<lparr>name = ''Bob'', ident = ''b'', partner = Some 0, children = [3]\<rparr>,
           \<lparr>name = ''Eve'', ident = ''e'', partner = Some 4, children = []\<rparr>,
           \<lparr>name = ''c'', ident = ''c'', partner = None, children = []\<rparr>,
           \<lparr>name = ''x'', ident = ''x'', partner = Some 2, children = []\<rparr>],
          [''Person not found with ID: c'', ''Person not found with ID: x'']) \<and>
   partner ([\<lparr>name = ''Ann'', ident = ''a'', partner = Some 1, children = []\<rparr>,
           \<lparr>name = ''Bob'', ident = ''b'', partner = Some 0, children = [3]\<rparr>,
           \<lparr>name = ''Eve'', ident = ''e'', partner = Some 4, children = []\<rparr>,
           \<lparr>name = ''c'', ident = ''c'', partner = None, children = []\<rparr>,
           \<lparr>name = ''x'', ident = ''x'', partner = Some 2, children = []\<rparr>] ! 4) = Some (2::nat)"
proof -
  let ?jsons = "[[\<lparr>name = ''Ann'', ident = ''a'', partner = Some ''b'', children = None\<rparr>,
              \<lparr>name = ''Bob'', ident = ''b'', partner = Some ''a'', children = Some [''c'']\<rparr>],
             [\<lparr>name = ''Eve'', ident = ''e'', partner = Some ''x'', children = None\<rparr>]] :: UnlinkedPerson list list"
  let ?people = "[\<lparr>name = ''Ann'', ident = ''a'', partner = Some 1, children = []\<rparr>,
           \<lparr>name = ''Bob'', ident = ''b'', partner = Some 0, children = [3]\<rparr>,
           \<lparr>name = ''Eve'', ident = ''e'', partner = Some 4, children = []\<rparr>,
           \<lparr>name = ''c'', ident = ''c'', partner = None, children = []\<rparr>,
           \<lparr>name = ''x'', ident = ''x'', partner = Some 2, children = []\<rparr>] :: LinkedPerson list"
  have m: "mergeDuplicates (concat ?jsons) = Inr (concat ?jsons)"
    by code_simp
  have mr: "mutualRecords (concat ?jsons)"
    by (simp add: mutualRecords_def pidP_def truthy_def childIds_def objectString_def)
  have f: "fromJSON ?jsons = Inr (?people, [''Person not found with ID: c'', ''Person not found with ID: x''])"
    by code_simp
  from partner_links_symmetric [OF m mr f]
  have "\<forall>r. partner (?people ! 2) = Some r \<longrightarrow> r < length ?people \<and> partner (?people ! r) = Some 2"
    by simp
  then have "partner (?people ! 4) = Some 2" by simp
  with f show ?thesis by simp
qed

text \<open>
  What \<^verbatim>\<open>findPerson\<close> does for an id without a person, other than the text
  \<^verbatim>\<open>[object Object]\<close>: it warns, appends a placeholder named after the id, without
  children, whose partner is the id of the first person not visited yet whose partner id
  is the missing id, and every later call for the id returns the placeholder.
\<close>

lemma findPerson_synthesizes:
  assumes "s \<notin> set (idsOf st)" and "s \<noteq> objectString" and "refsValid st"
  shows "\<exists>st'. findPerson st s = (length (idsOf st), st') \<and>
           linked st' = linked st \<and>
           pending st' = pending st @
             [\<lparr>name = s, ident = s,
               partner = map_option ident (find (pointsAtPending s) (pending st)),
               children = Some []\<rparr>] \<and>
           warnings st' = warnings st @ [''Person not found with ID: '' @ s] \<and>
           findPerson st' s = (length (idsOf st), st')"
proof -
  let ?st = "snd (findPerson st s)"
  note f = findPerson_new_fields [OF assms(1)]
  have again: "findPerson ?st s = (length (idsOf st), ?st)"
  proof -
    have "findIndex (\<lambda>i. i = s) (idsOf st @ [s]) = Some (length (idsOf st))"
      using assms(1) by (auto simp: findIndex_Some_iff nth_append)
    then show ?thesis by (intro findPerson_at) (simp only: f(1))
  qed
  have "findPerson st s = (length (idsOf st), ?st)"
    using f(4) by (metis prod.collapse)
  moreover have "warnings ?st = warnings st @ [''Person not found with ID: '' @ s]"
    using assms(1) by (simp add: findPerson_new)
  ultimately show ?thesis
    using f(2,3) again backInfer_pending [OF assms] by auto
qed

text \<open>
  Claim C6 fails on the code for the id \<^verbatim>\<open>[object Object]\<close>: the placeholder for it gets
  as partner the first visited person that has a partner at all, here Ann, whose partner
  is Bob and whose record names no such id.
\<close>

theorem findPerson_object_string:
  "fromJSON [[\<lparr>name = ''Ann'', ident = ''a'', partner = Some ''b'', children = None\<rparr>,
              \<lparr>name = ''Bob'', ident = ''b'', partner = Some ''a'', children = None\<rparr>,
              \<lparr>name = ''Cy'', ident = ''c'', partner = None, children = Some [''[object Object]'']\<rparr>]] =
     Inr ([\<lparr>name = ''Ann'', ident = ''a'', partner = Some 1, children = []\<rparr>,
           \<lparr>name = ''Bob'', ident = ''b'', partner = Some 0, children = []\<rparr>,
           \<lparr>name = ''Cy'', ident = ''c'', partner = None, children = [3]\<rparr>,
           \<lparr>name = ''[object Object]'', ident = ''[object Object]'', partner = Some 0, children = []\<rparr>],
          [''Person not found with ID: [object Object]''])"
  by code_simp

section \<open>Properties of the layout\<close>

lemma find_ident_iff:
  assumes "distinct (map ident people)" and "candidate < length people"
    and "\<forall>c\<in>set cs. c < length people"
  shows "find (\<lambda>c. ident (people ! c) = ident (people ! candidate)) cs \<noteq> None \<longleftrightarrow> candidate \<in> set cs"
proof -
  have "ident (people ! c) = ident (people ! candidate) \<longleftrightarrow> c = candidate" if "c \<in> set cs" for c
    using assms that nth_eq_iff_index_eq [of "map ident people" c candidate] by auto
  then show ?thesis
    by (auto simp: find_None_iff)
qed

lemma effectiveRoot_wellformed:
  assumes "distinct (map ident people)" and "candidate < length people"
    and "\<forall>p\<in>set people. \<forall>c\<in>set (children p). c < length people"
  shows "((\<forall>i<length people. candidate \<notin> set (children (people ! i))) \<longrightarrow>
            effectiveRoot people candidate = candidate) \<and>
         (\<forall>i<length people.
            candidate \<in> set (children (people ! i)) \<and>
            (\<forall>j<i. candidate \<notin> set (children (people ! j))) \<longrightarrow>
            effectiveRoot people candidate = i)"
proof -
  let ?P = "\<lambda>p. find (\<lambda>c. ident (people ! c) = ident (people ! candidate)) (children p) \<noteq> None"
  have P: "?P (people ! i) \<longleftrightarrow> candidate \<in> set (children (people ! i))" if "i < length people" for i
    using that assms by (intro find_ident_iff) auto
  have none: "effectiveRoot people candidate = candidate"
    if "\<forall>i<length people. candidate \<notin> set (children (people ! i))"
  proof -
    have "\<not> ?P x" if "x \<in> set people" for x
    proof -
      from that obtain i where "i < length people" "x = people ! i"
        by (auto simp: in_set_conv_nth)
      with P [of i] \<open>\<forall>i<length people. candidate \<notin> set (children (people ! i))\<close>
      show ?thesis by blast
    qed
    then have "findIndex ?P people = None"
      unfolding findIndex_None_iff by blast
    then show ?thesis by (simp add: effectiveRoot_def)
  qed
  have some: "effectiveRoot people candidate = i"
    if "i < length people" "candidate \<in> set (children (people ! i))"
      "\<forall>j<i. candidate \<notin> set (children (people ! j))" for i
  proof -
    have "findIndex ?P people = Some i"
      unfolding findIndex_Some_iff using that P by auto
    then show ?thesis by (simp add: effectiveRoot_def)
  qed
  from none some show ?thesis by blast
qed

text \<open>
  Claim C7. In every graph that \<^verbatim>\<open>fromJSON\<close> returns, the root that \<^verbatim>\<open>layOut\<close> draws
  from is the candidate itself when no person lists it as a child, and otherwise the
  first person of the array that does: a parent of the candidate, found in one pass over
  the array, with no further step upwards.
\<close>

theorem effectiveRoot_first_parent:
  assumes "fromJSON jsons = Inr (people, ws)" and "candidate < length people"
  shows "((\<forall>i<length people. candidate \<notin> set (children (people ! i))) \<longrightarrow>
            effectiveRoot people candidate = candidate) \<and>
         (\<forall>i<length people.
            candidate \<in> set (children (people ! i)) \<and>
            (\<forall>j<i. candidate \<notin> set (children (people ! j))) \<longrightarrow>
            effectiveRoot people candidate = i)"
proof -
  from fromJSON_wfGraph [OF assms(1)] have "distinct (map ident people)"
    and "\<forall>p\<in>set people. \<forall>c\<in>set (children p). c < length people"
    by (simp_all add: wfGraph_def)
  from effectiveRoot_wellformed [OF this(1) assms(2) this(2)] show ?thesis .
qed

theorem effectiveRoot_first_parent_witness:
  "fromJSON [[\<lparr>name = ''Gran'', ident = ''g'', partner = None, children = Some [''m'']\<rparr>,
              \<lparr>name = ''Mum'', ident = ''m'', partner = None, children = Some [''k'']\<rparr>,
              \<lparr>name = ''Kid'', ident = ''k'', partner = None, children = None\<rparr>]] =
     Inr ([\<lparr>name = ''Gran'', ident = ''g'', partner = None, children = [1]\<rparr>,
           \<lparr>name = ''Mum'', ident = ''m'', partner = None, children = [2]\<rparr>,
           \<lparr>name = ''Kid'', ident = ''k'', partner = None, children = []\<rparr>], []) \<and>
   effectiveRoot
     [\<lparr>name = ''Gran'', ident = ''g'', partner = None, children = [1]\<rparr>,
      \<lparr>name = ''Mum'', ident = ''m'', partner = None, children = [2]\<rparr>,
      \<lparr>name = ''Kid'', ident = ''k'', partner = None, children = []\<rparr>] 2 = 1 \<and>
   effectiveRoot
     [\<lparr>name = ''Gran'', ident = ''g'', partner = None, children = [1]\<rparr>,
      \<lparr>name = ''Mum'', ident = ''m'', partner = None, children = [2]\<rparr>,
      \<lparr>name = ''Kid'', ident = ''k'', partner = None, children = []\<rparr>] 0 = 0"
proof -
  let ?js = "[[\<lparr>name = ''Gran'', ident = ''g'', partner = None, children = Some [''m'']\<rparr>,
              \<lparr>name = ''Mum'', ident = ''m'', partner = None, children = Some [''k'']\<rparr>,
              \<lparr>name = ''Kid'', ident = ''k'', partner = None, children = None\<rparr>]] :: UnlinkedPerson list list"
  let ?ps = "[\<lparr>name = ''Gran'', ident = ''g'', partner = None, children = [1]\<rparr>,
      \<lparr>name = ''Mum'', ident = ''m'', partner = None, children = [2]\<rparr>,
      \<lparr>name = ''Kid'', ident = ''k'', partner = None, children = []\<rparr>] :: LinkedPerson list"
  have f: "fromJSON ?js = Inr (?ps, [])" by code_simp
  have "(2::nat) < length ?ps" by simp
  from effectiveRoot_first_parent [OF f this]
  have "\<forall>i<length ?ps. 2 \<in> set (children (?ps ! i)) \<and> (\<forall>j<i. 2 \<notin> set (children (?ps ! j))) \<longrightarrow>
          effectiveRoot ?ps 2 = i" by blast
  then have "2 \<in> set (children (?ps ! 1)) \<and> (\<forall>j<1. 2 \<notin> set (children (?ps ! j))) \<longrightarrow>
          effectiveRoot ?ps 2 = 1" by simp
  then have one: "effectiveRoot ?ps 2 = 1" by simp
  have "(0::nat) < length ?ps" by simp
  from effectiveRoot_first_parent [OF f this]
  have "(\<forall>i<length ?ps. 0 \<notin> set (children (?ps ! i))) \<longrightarrow> effectiveRoot ?ps 0 = 0" by blast
  moreover have "\<forall>i<length ?ps. 0 \<notin> set (children (?ps ! i))"
    by (simp add: less_Suc_eq numeral_3_eq_3)
  ultimately have "effectiveRoot ?ps 0 = 0" by blast
  with one f show ?thesis by simp
qed

text \<open>
  Claim C3 fails on the code for a person whose children array is empty, which is every
  person without children once \<^verbatim>\<open>linkPeople\<close> has run: the array is truthy, the sum
  is \<open>0\<close>, and \<^verbatim>\<open>(length - 1) * PERSON_SPACE\<close> is \<open>-20\<close>. Here for the only person of
  a one-record dataset.
\<close>

theorem getChildrenWidth_no_children:
  "fromJSON [[\<lparr>name = ''Ann'', ident = ''a'', partner = None, children = None\<rparr>]] =
     Inr ([\<lparr>name = ''Ann'', ident = ''a'', partner = None, children = []\<rparr>], []) \<and>
   map_option fst
     (getChildrenWidth 1 [\<lparr>name = ''Ann'', ident = ''a'', partner = None, children = []\<rparr>]
        (\<lambda>_. 50) 0 noWidths) = Some (- 20)"
proof -
  have "fromJSON [[\<lparr>name = ''Ann'', ident = ''a'', partner = None, children = None\<rparr>]] =
     Inr ([\<lparr>name = ''Ann'', ident = ''a'', partner = None, children = []\<rparr>], [])"
    by code_simp
  moreover have "map_option fst
     (getChildrenWidth 1 [\<lparr>name = ''Ann'', ident = ''a'', partner = None, children = []\<rparr>]
        (\<lambda>_. 50) 0 noWidths) = Some (- 20)"
    by (simp add: getChildrenWidth.simps PERSON_SPACE_def)
  ultimately show ?thesis by simp
qed

lemma getChildrenWidth_empty:
  "children (ps ! p) = [] \<Longrightarrow> getChildrenWidth f ps ow p c = Some (- PERSON_SPACE, c)"
  by (simp add: getChildrenWidth.simps)

text \<open>
  Claim C4 fails on the code: \<^verbatim>\<open>getChildrenWidth\<close> does not look at the partner, while
  \<^verbatim>\<open>show\<close>, \<^verbatim>\<open>place\<close> and \<^verbatim>\<open>draw\<close> do. A person without partner and with two
  children, every box 50 wide, gets a children width of 120 and a width of 120; with
  boxes of width 0 for the two children, which are never shown, still 20.
\<close>

theorem getChildrenWidth_ignores_partner:
  "fromJSON [[\<lparr>name = ''Ann'', ident = ''a'', partner = None, children = Some [''c'', ''d'']\<rparr>,
              \<lparr>name = ''Cy'', ident = ''c'', partner = None, children = None\<rparr>,
              \<lparr>name = ''Di'', ident = ''d'', partner = None, children = None\<rparr>]] =
     Inr ([\<lparr>name = ''Ann'', ident = ''a'', partner = None, children = [1, 2]\<rparr>,
           \<lparr>name = ''Cy'', ident = ''c'', partner = None, children = []\<rparr>,
           \<lparr>name = ''Di'', ident = ''d'', partner = None, children = []\<rparr>], []) \<and>
   map_option fst
     (getChildrenWidth 1
        [\<lparr>name = ''Ann'', ident = ''a'', partner = None, children = [1, 2]\<rparr>,
         \<lparr>name = ''Cy'', ident = ''c'', partner = None, children = []\<rparr>,
         \<lparr>name = ''Di'', ident = ''d'', partner = None, children = []\<rparr>]
        (\<lambda>_. 50) 0 noWidths) = Some 120 \<and>
   map_option fst
     (getWidth 2
        [\<lparr>name = ''Ann'', ident = ''a'', partner = None, children = [1, 2]\<rparr>,
         \<lparr>name = ''Cy'', ident = ''c'', partner = None, children = []\<rparr>,
         \<lparr>name = ''Di'', ident = ''d'', partner = None, children = []\<rparr>]
        (\<lambda>_. 50) 0 noWidths) = Some 120 \<and>
   map_option fst
     (getChildrenWidth 1
        [\<lparr>name = ''Ann'', ident = ''a'', partner = None, children = [1, 2]\<rparr>,
         \<lparr>name = ''Cy'', ident = ''c'', partner = None, children = []\<rparr>,
         \<lparr>name = ''Di'', ident = ''d'', partner = None, children = []\<rparr>]
        (\<lambda>p. if p = 0 then 50 else 0) 0 noWidths) = Some 20"
proof -
  have "fromJSON [[\<lparr>name = ''Ann'', ident = ''a'', partner = None, children = Some [''c'', ''d'']\<rparr>,
              \<lparr>name = ''Cy'', ident = ''c'', partner = None, children = None\<rparr>,
              \<lparr>name = ''Di'', ident = ''d'', partner = None, children = None\<rparr>]] =
     Inr ([\<lparr>name = ''Ann'', ident = ''a'', partner = None, children = [1, 2]\<rparr>,
           \<lparr>name = ''Cy'', ident = ''c'', partner = None, children = []\<rparr>,
           \<lparr>name = ''Di'', ident = ''d'', partner = None, children = []\<rparr>], [])"
    by code_simp
  moreover have "map_option fst
     (getChildrenWidth 1
        [\<lparr>name = ''Ann'', ident = ''a'', partner = None, children = [1, 2]\<rparr>,
         \<lparr>name = ''Cy'', ident = ''c'', partner = None, children = []\<rparr>,
         \<lparr>name = ''Di'', ident = ''d'', partner = None, children = []\<rparr>]
        (\<lambda>_. 50) 0 noWidths) = Some 120"
    by code_simp
  moreover have "map_option fst
     (getWidth 2
        [\<lparr>name = ''Ann'', ident = ''a'', partner = None, children = [1, 2]\<rparr>,
         \<lparr>name = ''Cy'', ident = ''c'', partner = None, children = []\<rparr>,
         \<lparr>name = ''Di'', ident = ''d'', partner = None, children = []\<rparr>]
        (\<lambda>_. 50) 0 noWidths) = Some 120"
    by code_simp
  moreover have "map_option fst
     (getChildrenWidth 1
        [\<lparr>name = ''Ann'', ident = ''a'', partner = None, children = [1, 2]\<rparr>,
         \<lparr>name = ''Cy'', ident = ''c'', partner = None, children = []\<rparr>,
         \<lparr>name = ''Di'', ident = ''d'', partner = None, children = []\<rparr>]
        (\<lambda>p. if p = 0 then 50 else 0) 0 noWidths) = Some 20"
    by code_simp
  ultimately show ?thesis by simp
qed

subsection \<open>The connector lines\<close>

text \<open>
  The children links below a person are at most \<open>n\<close> persons deep, the person counted:
  no chain of children links that starts at the person has more than \<open>n\<close> persons. No
  such bound exists on a cycle of children links.
\<close>

fun heightWithin :: "nat \<Rightarrow> LinkedPerson list \<Rightarrow> nat \<Rightarrow> bool" where
  "heightWithin 0 ps p = False"
| "heightWithin (Suc n) ps p = (\<forall>child\<in>set (children (ps ! p)). heightWithin n ps child)"

lemma heightWithin_mono: "heightWithin n ps p \<Longrightarrow> n \<le> m \<Longrightarrow> heightWithin m ps p"
proof (induction n arbitrary: m p)
  case 0
  then show ?case by simp
next
  case (Suc n)
  from Suc.prems(2) obtain m' where m: "m = Suc m'" "n \<le> m'" by (cases m) auto
  from Suc.prems(1) have "\<forall>child\<in>set (children (ps ! p)). heightWithin n ps child" by simp
  with Suc.IH m(2) have "\<forall>child\<in>set (children (ps ! p)). heightWithin m' ps child" by blast
  with m(1) show ?case by simp
qed

lemma mapCalls_returns:
  "(\<And>child. child \<in> set cs \<Longrightarrow> \<exists>xs. g child = Some xs) \<Longrightarrow> \<exists>ys. mapCalls g cs = Some ys"
proof (induction cs)
  case Nil
  then show ?case by simp
next
  case (Cons child rest)
  from Cons.prems [of child] obtain xs where xs: "g child = Some xs" by auto
  from Cons.IH Cons.prems obtain ys where "mapCalls g rest = Some ys" by auto
  with xs show ?case by simp
qed

lemma mapCalls_stable:
  "(\<And>child xs. child \<in> set cs \<Longrightarrow> g child = Some xs \<Longrightarrow> h child = Some xs) \<Longrightarrow>
     mapCalls g cs = Some ys \<Longrightarrow> mapCalls h cs = Some ys"
proof (induction cs arbitrary: ys)
  case Nil
  then show ?case by simp
next
  case (Cons child rest)
  from Cons.prems(2) obtain xs zs where xs: "g child = Some xs" and zs: "mapCalls g rest = Some zs"
    and ys: "ys = xs @ zs"
    by (auto split: option.splits)
  from Cons.prems(1) [OF _ xs] have "h child = Some xs" by simp
  moreover from Cons.IH [OF _ zs] Cons.prems(1) have "mapCalls h rest = Some zs" by simp
  ultimately show ?case using ys by simp
qed

text \<open>
  Where the children links are of bounded depth \<^verbatim>\<open>draw\<close> returns, and a larger bound on
  the depth of its recursion does not change the lines it returns.
\<close>

lemma draw_returns: "heightWithin f ps p \<Longrightarrow> \<exists>ls. draw f ps rc p = Some ls"
proof (induction f arbitrary: p)
  case 0
  then show ?case by simp
next
  case (Suc f)
  from Suc.prems have kids: "\<And>child. child \<in> set (children (ps ! p)) \<Longrightarrow> heightWithin f ps child"
    by simp
  show ?case
  proof (cases "partner (ps ! p)")
    case None
    then show ?thesis by simp
  next
    case (Some q)
    consider (many) "length (children (ps ! p)) > 1" | (one) "length (children (ps ! p)) = 1"
      | (none) "children (ps ! p) = []"
      by (cases "children (ps ! p)") auto
    then show ?thesis
    proof cases
      case many
      have "\<exists>ys. mapCalls (\<lambda>child. map_option (\<lambda>ls. drawChildLine (rc child) # ls) (draw f ps rc child))
                   (children (ps ! p)) = Some ys"
      proof (rule mapCalls_returns)
        fix child
        assume "child \<in> set (children (ps ! p))"
        then have "heightWithin f ps child" by (rule kids)
        then obtain ls where "draw f ps rc child = Some ls" using Suc.IH by blast
        then show "\<exists>xs. map_option (\<lambda>ls. drawChildLine (rc child) # ls) (draw f ps rc child) = Some xs"
          by simp
      qed
      with Some many show ?thesis by auto
    next
      case one
      then have "children (ps ! p) ! 0 \<in> set (children (ps ! p))" by simp
      then have "heightWithin f ps (children (ps ! p) ! 0)" by (rule kids)
      then obtain ls where "draw f ps rc (children (ps ! p) ! 0) = Some ls" using Suc.IH by blast
      with Some one show ?thesis by simp
    next
      case none
      with Some show ?thesis by simp
    qed
  qed
qed

lemma draw_stable: "draw f ps rc p = Some ls \<Longrightarrow> f \<le> g \<Longrightarrow> draw g ps rc p = Some ls"
proof (induction f arbitrary: g p ls)
  case 0
  then show ?case by simp
next
  case (Suc f)
  from Suc.prems(2) obtain g' where g: "g = Suc g'" "f \<le> g'" by (cases g) auto
  show ?case
  proof (cases "partner (ps ! p)")
    case None
    with Suc.prems(1) g show ?thesis by simp
  next
    case (Some q)
    consider (many) "length (children (ps ! p)) > 1" | (one) "length (children (ps ! p)) = 1"
      | (none) "children (ps ! p) = []"
      by (cases "children (ps ! p)") auto
    then show ?thesis
    proof cases
      case many
      with Suc.prems(1) Some obtain ys where
        ys: "mapCalls (\<lambda>child. map_option (\<lambda>ls. drawChildLine (rc child) # ls) (draw f ps rc child))
               (children (ps ! p)) = Some ys"
        and ls: "ls = drawPartnerLine (rc p) (rc q) # drawPartnerToChildrenLine (rc p) (rc q) # ys @
                   [drawConnectChildrenLine (rc (children (ps ! p) ! 0)) (rc (last (children (ps ! p))))]"
        by (auto split: option.splits)
      have "mapCalls (\<lambda>child. map_option (\<lambda>ls. drawChildLine (rc child) # ls) (draw g' ps rc child))
              (children (ps ! p)) = Some ys"
      proof (rule mapCalls_stable [OF _ ys])
        fix child xs
        assume "map_option (\<lambda>ls. drawChildLine (rc child) # ls) (draw f ps rc child) = Some xs"
        then obtain zs where zs: "draw f ps rc child = Some zs" and xs: "xs = drawChildLine (rc child) # zs"
          by auto
        from Suc.IH [OF zs g(2)] xs
        show "map_option (\<lambda>ls. drawChildLine (rc child) # ls) (draw g' ps rc child) = Some xs"
          by simp
      qed
      with Some many ls g(1) show ?thesis by simp
    next
      case one
      with Suc.prems(1) Some obtain zs where zs: "draw f ps rc (children (ps ! p) ! 0) = Some zs"
        and ls: "ls = drawPartnerLine (rc p) (rc q) # drawOnlyChildLine (rc p) (rc q) # zs"
        by (auto split: option.splits)
      from Suc.IH [OF zs g(2)] Some one ls g(1) show ?thesis by simp
    next
      case none
      with Suc.prems(1) Some g(1) show ?thesis by simp
    qed
  qed
qed

text \<open>
  Claim C9. For a person with a partner and at least one child, whose children links are of
  bounded depth, \<^verbatim>\<open>draw\<close> returns; the first line it emits is the horizontal line
  between the two boxes and the second is the vertical line that descends from the pair
  (\<^verbatim>\<open>drawPartnerToChildrenLine\<close> for several children, \<^verbatim>\<open>drawOnlyChildLine\<close> for
  one), and this descending line starts at the height of the partner line.
\<close>

theorem partner_line_meets_descent:
  assumes "partner (ps ! p) = Some q" and "children (ps ! p) \<noteq> []"
    and "heightWithin f ps p"
  shows "\<exists>partnerLine descent rest.
           draw f ps rc p = Some (partnerLine # descent # rest) \<and>
           partnerLine = drawPartnerLine (rc p) (rc q) \<and>
           descent = (if length (children (ps ! p)) > 1
                      then drawPartnerToChildrenLine (rc p) (rc q)
                      else drawOnlyChildLine (rc p) (rc q)) \<and>
           y1 partnerLine = y2 partnerLine \<and>
           x1 descent = x2 descent \<and>
           y1 descent = y1 partnerLine"
proof -
  from draw_returns [OF assms(3)] obtain ls where ls: "draw f ps rc p = Some ls" by blast
  then obtain g where f: "f = Suc g" by (cases f) auto
  have len: "length (children (ps ! p)) > 1 \<or> length (children (ps ! p)) = 1"
    using assms(2) by (cases "children (ps ! p)") auto
  have ys: "y1 (drawPartnerLine (rc p) (rc q)) = y2 (drawPartnerLine (rc p) (rc q))"
    "x1 (drawPartnerToChildrenLine (rc p) (rc q)) = x2 (drawPartnerToChildrenLine (rc p) (rc q))"
    "x1 (drawOnlyChildLine (rc p) (rc q)) = x2 (drawOnlyChildLine (rc p) (rc q))"
    "y1 (drawPartnerToChildrenLine (rc p) (rc q)) = y1 (drawPartnerLine (rc p) (rc q))"
    "y1 (drawOnlyChildLine (rc p) (rc q)) = y1 (drawPartnerLine (rc p) (rc q))"
    by (simp_all add: drawPartnerLine_def drawPartnerToChildrenLine_def drawOnlyChildLine_def Let_def)
  from len show ?thesis
  proof
    assume many: "length (children (ps ! p)) > 1"
    with assms(1) ls f obtain rest where
      "ls = drawPartnerLine (rc p) (rc q) # drawPartnerToChildrenLine (rc p) (rc q) # rest"
      by (auto split: option.splits)
    with many ys ls show ?thesis by simp
  next
    assume one: "length (children (ps ! p)) = 1"
    with assms(1) ls f obtain rest where
      "ls = drawPartnerLine (rc p) (rc q) # drawOnlyChildLine (rc p) (rc q) # rest"
      by (auto split: option.splits)
    with one ys ls show ?thesis by simp
  qed
qed

theorem partner_line_meets_descent_witness:
  "(\<exists>partnerLine descent rest.
      draw 3
        [\<lparr>name = ''Ann'', ident = ''a'', partner = Some 1, children = [2, 3]\<rparr>,
         \<lparr>name = ''Bob'', ident = ''b'', partner = Some 0, children = []\<rparr>,
         \<lparr>name = ''Cy'', ident = ''c'', partner = Some 4, children = [5]\<rparr>,
         \<lparr>name = ''Di'', ident = ''d'', partner = None, children = []\<rparr>,
         \<lparr>name = ''Eve'', ident = ''e'', partner = Some 2, children = []\<rparr>,
         \<lparr>name = ''Fay'', ident = ''f'', partner = None, children = []\<rparr>]
        (\<lambda>p. [\<lparr>leftEdge = 35, rightEdge = 85, topEdge = 0, bottomEdge = 20\<rparr>,
              \<lparr>leftEdge = 105, rightEdge = 155, topEdge = 0, bottomEdge = 20\<rparr>,
              \<lparr>leftEdge = 0, rightEdge = 50, topEdge = 55, bottomEdge = 75\<rparr>,
              \<lparr>leftEdge = 140, rightEdge = 190, topEdge = 55, bottomEdge = 75\<rparr>,
              \<lparr>leftEdge = 70, rightEdge = 120, topEdge = 55, bottomEdge = 75\<rparr>,
              \<lparr>leftEdge = 35, rightEdge = 85, topEdge = 110, bottomEdge = 130\<rparr>] ! p) 0 =
        Some (partnerLine # descent # rest) \<and>
      partnerLine = \<lparr>x1 = 85, y1 = 10, x2 = 106, y2 = 10\<rparr> \<and>
      descent = \<lparr>x1 = 95, y1 = 10, x2 = 95, y2 = 75 / 2\<rparr> \<and>
      length rest = 5 \<and>
      y1 descent = y1 partnerLine) \<and>
   (\<exists>partnerLine descent rest.
      draw 2
        [\<lparr>name = ''Ann'', ident = ''a'', partner = Some 1, children = [2, 3]\<rparr>,
         \<lparr>name = ''Bob'', ident = ''b'', partner = Some 0, children = []\<rparr>,
         \<lparr>name = ''Cy'', ident = ''c'', partner = Some 4, children = [5]\<rparr>,
         \<lparr>name = ''Di'', ident = ''d'', partner = None, children = []\<rparr>,
         \<lparr>name = ''Eve'', ident = ''e'', partner = Some 2, children = []\<rparr>,
         \<lparr>name = ''Fay'', ident = ''f'', partner = None, children = []\<rparr>]
        (\<lambda>p. [\<lparr>leftEdge = 35, rightEdge = 85, topEdge = 0, bottomEdge = 20\<rparr>,
              \<lparr>leftEdge = 105, rightEdge = 155, topEdge = 0, bottomEdge = 20\<rparr>,
              \<lparr>leftEdge = 0, rightEdge = 50, topEdge = 55, bottomEdge = 75\<rparr>,
              \<lparr>leftEdge = 140, rightEdge = 190, topEdge = 55, bottomEdge = 75\<rparr>,
              \<lparr>leftEdge = 70, rightEdge = 120, topEdge = 55, bottomEdge = 75\<rparr>,
              \<lparr>leftEdge = 35, rightEdge = 85, topEdge = 110, bottomEdge = 130\<rparr>] ! p) 2 =
        Some (partnerLine # descent # rest) \<and>
      partnerLine = \<lparr>x1 = 50, y1 = 65, x2 = 71, y2 = 65\<rparr> \<and>
      descent = \<lparr>x1 = 60, y1 = 65, x2 = 60, y2 = 110\<rparr> \<and>
      rest = [] \<and>
      y1 descent = y1 partnerLine)"
proof -
  let ?ps = "[\<lparr>name = ''Ann'', ident = ''a'', partner = Some 1, children = [2, 3]\<rparr>,
         \<lparr>name = ''Bob'', ident = ''b'', partner = Some 0, children = []\<rparr>,
         \<lparr>name = ''Cy'', ident = ''c'', partner = Some 4, children = [5]\<rparr>,
         \<lparr>name = ''Di'', ident = ''d'', partner = None, children = []\<rparr>,
         \<lparr>name = ''Eve'', ident = ''e'', partner = Some 2, children = []\<rparr>,
         \<lparr>name = ''Fay'', ident = ''f'', partner = None, children = []\<rparr>] :: LinkedPerson list"
  let ?rc = "\<lambda>p::nat. [\<lparr>leftEdge = 35, rightEdge = 85, topEdge = 0, bottomEdge = 20\<rparr>,
              \<lparr>leftEdge = 105, rightEdge = 155, topEdge = 0, bottomEdge = 20\<rparr>,
              \<lparr>leftEdge = 0, rightEdge = 50, topEdge = 55, bottomEdge = 75\<rparr>,
              \<lparr>leftEdge = 140, rightEdge = 190, topEdge = 55, bottomEdge = 75\<rparr>,
              \<lparr>leftEdge = 70, rightEdge = 120, topEdge = 55, bottomEdge = 75\<rparr>,
              \<lparr>leftEdge = 35, rightEdge = 85, topEdge = 110, bottomEdge = 130\<rparr>] ! p"
  have ann: "partner (?ps ! 0) = Some 1" "children (?ps ! 0) \<noteq> []" "heightWithin 3 ?ps 0"
    by (simp_all add: numeral_3_eq_3)
  have cy: "partner (?ps ! 2) = Some 4" "children (?ps ! 2) \<noteq> []" "heightWithin 2 ?ps 2"
    by (simp_all add: numeral_2_eq_2)
  have all: "draw 3 ?ps ?rc 0 =
     Some [\<lparr>x1 = 85, y1 = 10, x2 = 106, y2 = 10\<rparr>, \<lparr>x1 = 95, y1 = 10, x2 = 95, y2 = 75 / 2\<rparr>,
           \<lparr>x1 = 25, y1 = 55, x2 = 25, y2 = 75 / 2\<rparr>,
           \<lparr>x1 = 50, y1 = 65, x2 = 71, y2 = 65\<rparr>, \<lparr>x1 = 60, y1 = 65, x2 = 60, y2 = 110\<rparr>,
           \<lparr>x1 = 165, y1 = 55, x2 = 165, y2 = 75 / 2\<rparr>,
           \<lparr>x1 = 24, y1 = 75 / 2, x2 = 166, y2 = 75 / 2\<rparr>]"
    by code_simp
  have below: "draw 2 ?ps ?rc 2 =
     Some [\<lparr>x1 = 50, y1 = 65, x2 = 71, y2 = 65\<rparr>, \<lparr>x1 = 60, y1 = 65, x2 = 60, y2 = 110\<rparr>]"
    by code_simp
  from partner_line_meets_descent [of ?ps 0 1 3 ?rc, OF ann]
  obtain partnerLine descent rest where
    "draw 3 ?ps ?rc 0 = Some (partnerLine # descent # rest)" "y1 descent = y1 partnerLine"
    by blast
  with all have first: "\<exists>partnerLine descent rest.
      draw 3 ?ps ?rc 0 = Some (partnerLine # descent # rest) \<and>
      partnerLine = \<lparr>x1 = 85, y1 = 10, x2 = 106, y2 = 10\<rparr> \<and>
      descent = \<lparr>x1 = 95, y1 = 10, x2 = 95, y2 = 75 / 2\<rparr> \<and>
      length rest = 5 \<and>
      y1 descent = y1 partnerLine"
    by auto
  from partner_line_meets_descent [of ?ps 2 4 2 ?rc, OF cy]
  obtain partnerLine descent rest where
    "draw 2 ?ps ?rc 2 = Some (partnerLine # descent # rest)" "y1 descent = y1 partnerLine"
    by blast
  with below have second: "\<exists>partnerLine descent rest.
      draw 2 ?ps ?rc 2 = Some (partnerLine # descent # rest) \<and>
      partnerLine = \<lparr>x1 = 50, y1 = 65, x2 = 71, y2 = 65\<rparr> \<and>
      descent = \<lparr>x1 = 60, y1 = 65, x2 = 60, y2 = 110\<rparr> \<and>
      rest = [] \<and>
      y1 descent = y1 partnerLine"
    by auto
  from first second show ?thesis by (rule conjI)
qed

subsection \<open>The layout as the specification words it\<close>

text \<open>
  Section 4.4 of the specification, put beside \<^verbatim>\<open>getWidth\<close> and \<^verbatim>\<open>place\<close> for
  comparison: \<open>partnerWidth\<close> is the own box alone, or the two boxes of the pair and one
  \<open>SPACING\<close>; \<open>childrenWidth\<close> is \<open>0\<close> for a person without children and for a person
  without partner, else the sum of the children's widths and \<open>SPACING * (count - 1)\<close>;
  \<open>width\<close> is the larger of the two. \<open>SPACING\<close> is \<^verbatim>\<open>PERSON_SPACE\<close>. The first argument
  bounds the depth of the recursion as it does for \<^verbatim>\<open>getWidth\<close>; nothing is memoised.
\<close>

definition specPartnerWidth :: "LinkedPerson list \<Rightarrow> (nat \<Rightarrow> real) \<Rightarrow> nat \<Rightarrow> real" where
  "specPartnerWidth ps ownBoxWidth p =
     (case partner (ps ! p) of
        None \<Rightarrow> ownBoxWidth p
      | Some q \<Rightarrow> ownBoxWidth p + PERSON_SPACE + ownBoxWidth q)"

fun specWidth :: "nat \<Rightarrow> LinkedPerson list \<Rightarrow> (nat \<Rightarrow> real) \<Rightarrow> nat \<Rightarrow> real option"
  and specChildrenWidth :: "nat \<Rightarrow> LinkedPerson list \<Rightarrow> (nat \<Rightarrow> real) \<Rightarrow> nat \<Rightarrow> real option"
  where
  "specWidth 0 ps ownBoxWidth p = None"
| "specWidth (Suc f) ps ownBoxWidth p =
     map_option (max (specPartnerWidth ps ownBoxWidth p)) (specChildrenWidth f ps ownBoxWidth p)"
| "specChildrenWidth f ps ownBoxWidth p =
     (if partner (ps ! p) = None \<or> children (ps ! p) = [] then Some 0
      else map_option (\<lambda>ws. sum_list ws + PERSON_SPACE * (real (length (children (ps ! p))) - 1))
             (those (map (specWidth f ps ownBoxWidth) (children (ps ! p)))))"

declare specChildrenWidth.simps [simp del]

text \<open>
  The placement of section 4.4: the own box at \<open>x + (width - partnerWidth) / 2\<close>, the
  partner's box to its right after one \<open>SPACING\<close>; the row of children from \<open>x\<close> when
  \<open>childrenWidth \<ge> partnerWidth\<close> and centred under the pair otherwise, one \<^verbatim>\<open>GEN_SPACE\<close>
  down, the running left edge advanced by the child's width and one \<open>SPACING\<close> after each
  child. A person without partner has no row of children. The result lists the boxes with
  their positions, in the order in which \<^verbatim>\<open>place\<close> moves them.
\<close>

fun specRow ::
  "(nat \<Rightarrow> real \<Rightarrow> move list option) \<Rightarrow> (nat \<Rightarrow> real option) \<Rightarrow> nat list \<Rightarrow> real \<Rightarrow> move list option" where
  "specRow pl wd [] left = Some []"
| "specRow pl wd (child # rest) left =
     (case pl child left of
        None \<Rightarrow> None
      | Some ms \<Rightarrow>
          (case wd child of
             None \<Rightarrow> None
           | Some w \<Rightarrow> map_option (\<lambda>ms'. ms @ ms') (specRow pl wd rest (left + w + PERSON_SPACE))))"

fun specPlace ::
  "nat \<Rightarrow> LinkedPerson list \<Rightarrow> (nat \<Rightarrow> real) \<Rightarrow> nat \<Rightarrow> real \<Rightarrow> real \<Rightarrow> move list option" where
  "specPlace 0 ps ownBoxWidth p x y = None"
| "specPlace (Suc f) ps ownBoxWidth p x y =
     (case specWidth f ps ownBoxWidth p of
        None \<Rightarrow> None
      | Some w \<Rightarrow>
          let boxLeft = x + (w - specPartnerWidth ps ownBoxWidth p) / 2 in
          (case partner (ps ! p) of
             None \<Rightarrow> Some [\<lparr>box = p, dx = boxLeft, dy = y\<rparr>]
           | Some q \<Rightarrow>
               (case specChildrenWidth f ps ownBoxWidth p of
                  None \<Rightarrow> None
                | Some cw \<Rightarrow>
                    (case specRow (\<lambda>child left. specPlace f ps ownBoxWidth child left (y + GEN_SPACE))
                            (specWidth f ps ownBoxWidth) (children (ps ! p))
                            (if cw \<ge> specPartnerWidth ps ownBoxWidth p then x
                             else x + (specPartnerWidth ps ownBoxWidth p - cw) / 2) of
                       None \<Rightarrow> None
                     | Some row \<Rightarrow>
                         Some (\<lparr>box = p, dx = boxLeft, dy = y\<rparr> #
                               \<lparr>box = q, dx = boxLeft + ownBoxWidth p + PERSON_SPACE, dy = y\<rparr> #
                               row)))))"

text \<open>
  Claim C8: the placement pass puts the own box at \<open>x + (width - partnerWidth) / 2\<close>, the
  partner's box one \<open>SPACING\<close> to its right, and the children in a row that starts at
  \<open>x\<close> or is centred under the pair, each child after the width of the one before and one
  \<open>SPACING\<close>. The code does this with the widths of \<^verbatim>\<open>getWidth\<close>, which are not those of
  section 4.4: \<^verbatim>\<open>getChildrenWidth\<close> counts the children of a person without partner,
  whom \<^verbatim>\<open>show\<close> never appends to the tree. Ann and Bob are partners with the
  children Cy and Di; Cy has no partner and four children. On the first layout the boxes of
  Ann, Bob, Cy and Di are shown and 50 wide, the four hidden boxes measure 0. The code
  gives Cy the width \<open>3 * 20 = 60\<close>, so the row of children is 130 wide: Ann's box
  goes to 5, Bob's to 75, Cy's to 5 and Di's to 80. With the widths of section 4.4 Cy is
  50 wide and the row 120, as wide as the pair: Ann at 0, Bob at 70, Cy at 0 and Di at 70.
\<close>

theorem place_counts_unpartnered_children:
  "fromJSON
     [[\<lparr>name = ''Ann'', ident = ''a'', partner = Some ''b'', children = Some [''c'', ''d'']\<rparr>,
       \<lparr>name = ''Bob'', ident = ''b'', partner = Some ''a'', children = None\<rparr>,
       \<lparr>name = ''Cy'', ident = ''c'', partner = None, children = Some [''e'', ''f'', ''g'', ''h'']\<rparr>,
       \<lparr>name = ''Di'', ident = ''d'', partner = None, children = None\<rparr>,
       \<lparr>name = ''Eli'', ident = ''e'', partner = None, children = None\<rparr>,
       \<lparr>name = ''Flo'', ident = ''f'', partner = None, children = None\<rparr>,
       \<lparr>name = ''Gus'', ident = ''g'', partner = None, children = None\<rparr>,
       \<lparr>name = ''Hal'', ident = ''h'', partner = None, children = None\<rparr>]] =
     Inr ([\<lparr>name = ''Ann'', ident = ''a'', partner = Some 1, children = [2, 3]\<rparr>,
           \<lparr>name = ''Bob'', ident = ''b'', partner = Some 0, children = []\<rparr>,
           \<lparr>name = ''Cy'', ident = ''c'', partner = None, children = [4, 5, 6, 7]\<rparr>,
           \<lparr>name = ''Di'', ident = ''d'', partner = None, children = []\<rparr>,
           \<lparr>name = ''Eli'', ident = ''e'', partner = None, children = []\<rparr>,
           \<lparr>name = ''Flo'', ident = ''f'', partner = None, children = []\<rparr>,
           \<lparr>name = ''Gus'', ident = ''g'', partner = None, children = []\<rparr>,
           \<lparr>name = ''Hal'', ident = ''h'', partner = None, children = []\<rparr>], []) \<and>
   showPerson 4
     [\<lparr>name = ''Ann'', ident = ''a'', partner = Some 1, children = [2, 3]\<rparr>,
      \<lparr>name = ''Bob'', ident = ''b'', partner = Some 0, children = []\<rparr>,
      \<lparr>name = ''Cy'', ident = ''c'', partner = None, children = [4, 5, 6, 7]\<rparr>,
      \<lparr>name = ''Di'', ident = ''d'', partner = None, children = []\<rparr>,
      \<lparr>name = ''Eli'', ident = ''e'', partner = None, children = []\<rparr>,
      \<lparr>name = ''Flo'', ident = ''f'', partner = None, children = []\<rparr>,
      \<lparr>name = ''Gus'', ident = ''g'', partner = None, children = []\<rparr>,
      \<lparr>name = ''Hal'', ident = ''h'', partner = None, children = []\<rparr>] 0 = Some [0, 1, 2, 3] \<and>
   map_option fst
     (place 4
        [\<lparr>name = ''Ann'', ident = ''a'', partner = Some 1, children = [2, 3]\<rparr>,
         \<lparr>name = ''Bob'', ident = ''b'', partner = Some 0, children = []\<rparr>,
         \<lparr>name = ''Cy'', ident = ''c'', partner = None, children = [4, 5, 6, 7]\<rparr>,
         \<lparr>name = ''Di'', ident = ''d'', partner = None, children = []\<rparr>,
         \<lparr>name = ''Eli'', ident = ''e'', partner = None, children = []\<rparr>,
         \<lparr>name = ''Flo'', ident = ''f'', partner = None, children = []\<rparr>,
         \<lparr>name = ''Gus'', ident = ''g'', partner = None, children = []\<rparr>,
         \<lparr>name = ''Hal'', ident = ''h'', partner = None, children = []\<rparr>]
        (\<lambda>p. if p < 4 then 50 else 0) 0 0 0 noWidths) =
     Some [\<lparr>box = 0, dx = 5, dy = 0\<rparr>, \<lparr>box = 1, dx = 75, dy = 0\<rparr>,
           \<lparr>box = 2, dx = 5, dy = 55\<rparr>, \<lparr>box = 3, dx = 80, dy = 55\<rparr>] \<and>
   specPlace 4
     [\<lparr>name = ''Ann'', ident = ''a'', partner = Some 1, children = [2, 3]\<rparr>,
      \<lparr>name = ''Bob'', ident = ''b'', partner = Some 0, children = []\<rparr>,
      \<lparr>name = ''Cy'', ident = ''c'', partner = None, children = [4, 5, 6, 7]\<rparr>,
      \<lparr>name = ''Di'', ident = ''d'', partner = None, children = []\<rparr>,
      \<lparr>name = ''Eli'', ident = ''e'', partner = None, children = []\<rparr>,
      \<lparr>name = ''Flo'', ident = ''f'', partner = None, children = []\<rparr>,
      \<lparr>name = ''Gus'', ident = ''g'', partner = None, children = []\<rparr>,
      \<lparr>name = ''Hal'', ident = ''h'', partner = None, children = []\<rparr>]
     (\<lambda>p. if p < 4 then 50 else 0) 0 0 0 =
     Some [\<lparr>box = 0, dx = 0, dy = 0\<rparr>, \<lparr>box = 1, dx = 70, dy = 0\<rparr>,
           \<lparr>box = 2, dx = 0, dy = 55\<rparr>, \<lparr>box = 3, dx = 70, dy = 55\<rparr>]"
proof -
  let ?ps = "[\<lparr>name = ''Ann'', ident = ''a'', partner = Some 1, children = [2, 3]\<rparr>,
      \<lparr>name = ''Bob'', ident = ''b'', partner = Some 0, children = []\<rparr>,
      \<lparr>name = ''Cy'', ident = ''c'', partner = None, children = [4, 5, 6, 7]\<rparr>,
      \<lparr>name = ''Di'', ident = ''d'', partner = None, children = []\<rparr>,
      \<lparr>name = ''Eli'', ident = ''e'', partner = None, children = []\<rparr>,
      \<lparr>name = ''Flo'', ident = ''f'', partner = None, children = []\<rparr>,
      \<lparr>name = ''Gus'', ident = ''g'', partner = None, children = []\<rparr>,
      \<lparr>name = ''Hal'', ident = ''h'', partner = None, children = []\<rparr>] :: LinkedPerson list"
  let ?ow = "\<lambda>p::nat. if p < 4 then 50 else 0 :: real"
  have "fromJSON
     [[\<lparr>name = ''Ann'', ident = ''a'', partner = Some ''b'', children = Some [''c'', ''d'']\<rparr>,
       \<lparr>name = ''Bob'', ident = ''b'', partner = Some ''a'', children = None\<rparr>,
       \<lparr>name = ''Cy'', ident = ''c'', partner = None, children = Some [''e'', ''f'', ''g'', ''h'']\<rparr>,
       \<lparr>name = ''Di'', ident = ''d'', partner = None, children = None\<rparr>,
       \<lparr>name = ''Eli'', ident = ''e'', partner = None, children = None\<rparr>,
       \<lparr>name = ''Flo'', ident = ''f'', partner = None, children = None\<rparr>,
       \<lparr>name = ''Gus'', ident = ''g'', partner = None, children = None\<rparr>,
       \<lparr>name = ''Hal'', ident = ''h'', partner = None, children = None\<rparr>]] = Inr (?ps, [])"
    by code_simp
  moreover have "showPerson 4 ?ps 0 = Some [0, 1, 2, 3]"
    by code_simp
  moreover have "map_option fst (place 4 ?ps ?ow 0 0 0 noWidths) =
     Some [\<lparr>box = 0, dx = 5, dy = 0\<rparr>, \<lparr>box = 1, dx = 75, dy = 0\<rparr>,
           \<lparr>box = 2, dx = 5, dy = 55\<rparr>, \<lparr>box = 3, dx = 80, dy = 55\<rparr>]"
    by code_simp
  moreover have "specPlace 4 ?ps ?ow 0 0 0 =
     Some [\<lparr>box = 0, dx = 0, dy = 0\<rparr>, \<lparr>box = 1, dx = 70, dy = 0\<rparr>,
           \<lparr>box = 2, dx = 0, dy = 55\<rparr>, \<lparr>box = 3, dx = 70, dy = 55\<rparr>]"
    by code_simp
  ultimately show ?thesis by (intro conjI)
qed

text \<open>
  The widths that \<^verbatim>\<open>getChildrenWidth\<close> takes below a person without partner are measured
  on hidden boxes, and \<^verbatim>\<open>person._width\<close> keeps them: \<^verbatim>\<open>setUpPerson\<close> makes new boxes
  on every \<^verbatim>\<open>layOut\<close> and leaves \<^verbatim>\<open>_width\<close> as it is. Tom and Una have the children Rex
  and Zoe; Rex has no partner and the child Dee; Dee and Ed have the child Flo, the partner
  of Zoe. The boxes of Dee and Ed are 80 wide, the others 50. The first layout, from Tom,
  shows neither Dee nor Ed and memoises for Dee the width 120 of her child. A click on Flo
  lays the tree out from Dee: her pair is now 180 wide, the memo still says 120, and her
  box goes to \<open>(120 - 180) / 2 = - 30\<close>, outside the subtree that starts at 0; section 4.4
  puts it at 0.
\<close>

lemma place_reads_widths_of_hidden_boxes:
  "fromJSON
     [[\<lparr>name = ''Tom'', ident = ''t'', partner = Some ''u'', children = Some [''r'', ''z'']\<rparr>,
       \<lparr>name = ''Una'', ident = ''u'', partner = Some ''t'', children = None\<rparr>,
       \<lparr>name = ''Rex'', ident = ''r'', partner = None, children = Some [''d'']\<rparr>,
       \<lparr>name = ''Dee'', ident = ''d'', partner = Some ''e'', children = Some [''f'']\<rparr>,
       \<lparr>name = ''Ed'', ident = ''e'', partner = Some ''d'', children = None\<rparr>,
       \<lparr>name = ''Flo'', ident = ''f'', partner = Some ''z'', children = None\<rparr>,
       \<lparr>name = ''Zoe'', ident = ''z'', partner = Some ''f'', children = None\<rparr>]] =
     Inr ([\<lparr>name = ''Tom'', ident = ''t'', partner = Some 1, children = [2, 6]\<rparr>,
           \<lparr>name = ''Una'', ident = ''u'', partner = Some 0, children = []\<rparr>,
           \<lparr>name = ''Rex'', ident = ''r'', partner = None, children = [3]\<rparr>,
           \<lparr>name = ''Dee'', ident = ''d'', partner = Some 4, children = [5]\<rparr>,
           \<lparr>name = ''Ed'', ident = ''e'', partner = Some 3, children = []\<rparr>,
           \<lparr>name = ''Flo'', ident = ''f'', partner = Some 6, children = []\<rparr>,
           \<lparr>name = ''Zoe'', ident = ''z'', partner = Some 5, children = []\<rparr>], []) \<and>
   effectiveRoot
     [\<lparr>name = ''Tom'', ident = ''t'', partner = Some 1, children = [2, 6]\<rparr>,
      \<lparr>name = ''Una'', ident = ''u'', partner = Some 0, children = []\<rparr>,
      \<lparr>name = ''Rex'', ident = ''r'', partner = None, children = [3]\<rparr>,
      \<lparr>name = ''Dee'', ident = ''d'', partner = Some 4, children = [5]\<rparr>,
      \<lparr>name = ''Ed'', ident = ''e'', partner = Some 3, children = []\<rparr>,
      \<lparr>name = ''Flo'', ident = ''f'', partner = Some 6, children = []\<rparr>,
      \<lparr>name = ''Zoe'', ident = ''z'', partner = Some 5, children = []\<rparr>] 0 = 0 \<and>
   showPerson 5
     [\<lparr>name = ''Tom'', ident = ''t'', partner = Some 1, children = [2, 6]\<rparr>,
      \<lparr>name = ''Una'', ident = ''u'', partner = Some 0, children = []\<rparr>,
      \<lparr>name = ''Rex'', ident = ''r'', partner = None, children = [3]\<rparr>,
      \<lparr>name = ''Dee'', ident = ''d'', partner = Some 4, children = [5]\<rparr>,
      \<lparr>name = ''Ed'', ident = ''e'', partner = Some 3, children = []\<rparr>,
      \<lparr>name = ''Flo'', ident = ''f'', partner = Some 6, children = []\<rparr>,
      \<lparr>name = ''Zoe'', ident = ''z'', partner = Some 5, children = []\<rparr>] 0 = Some [0, 1, 2, 6, 5] \<and>
   effectiveRoot
     [\<lparr>name = ''Tom'', ident = ''t'', partner = Some 1, children = [2, 6]\<rparr>,
      \<lparr>name = ''Una'', ident = ''u'', partner = Some 0, children = []\<rparr>,
      \<lparr>name = ''Rex'', ident = ''r'', partner = None, children = [3]\<rparr>,
      \<lparr>name = ''Dee'', ident = ''d'', partner = Some 4, children = [5]\<rparr>,
      \<lparr>name = ''Ed'', ident = ''e'', partner = Some 3, children = []\<rparr>,
      \<lparr>name = ''Flo'', ident = ''f'', partner = Some 6, children = []\<rparr>,
      \<lparr>name = ''Zoe'', ident = ''z'', partner = Some 5, children = []\<rparr>] 5 = 3 \<and>
   showPerson 5
     [\<lparr>name = ''Tom'', ident = ''t'', partner = Some 1, children = [2, 6]\<rparr>,
      \<lparr>name = ''Una'', ident = ''u'', partner = Some 0, children = []\<rparr>,
      \<lparr>name = ''Rex'', ident = ''r'', partner = None, children = [3]\<rparr>,
      \<lparr>name = ''Dee'', ident = ''d'', partner = Some 4, children = [5]\<rparr>,
      \<lparr>name = ''Ed'', ident = ''e'', partner = Some 3, children = []\<rparr>,
      \<lparr>name = ''Flo'', ident = ''f'', partner = Some 6, children = []\<rparr>,
      \<lparr>name = ''Zoe'', ident = ''z'', partner = Some 5, children = []\<rparr>] 3 = Some [3, 4, 5, 6] \<and>
   (case place 5
        [\<lparr>name = ''Tom'', ident = ''t'', partner = Some 1, children = [2, 6]\<rparr>,
         \<lparr>name = ''Una'', ident = ''u'', partner = Some 0, children = []\<rparr>,
         \<lparr>name = ''Rex'', ident = ''r'', partner = None, children = [3]\<rparr>,
         \<lparr>name = ''Dee'', ident = ''d'', partner = Some 4, children = [5]\<rparr>,
         \<lparr>name = ''Ed'', ident = ''e'', partner = Some 3, children = []\<rparr>,
         \<lparr>name = ''Flo'', ident = ''f'', partner = Some 6, children = []\<rparr>,
         \<lparr>name = ''Zoe'', ident = ''z'', partner = Some 5, children = []\<rparr>]
        (\<lambda>p. if p \<in> {0, 1, 2, 6, 5} then 50 else 0) 0 0 0 noWidths of
      None \<Rightarrow> None
    | Some (ms, c) \<Rightarrow>
        map_option fst
          (place 5
             [\<lparr>name = ''Tom'', ident = ''t'', partner = Some 1, children = [2, 6]\<rparr>,
              \<lparr>name = ''Una'', ident = ''u'', partner = Some 0, children = []\<rparr>,
              \<lparr>name = ''Rex'', ident = ''r'', partner = None, children = [3]\<rparr>,
              \<lparr>name = ''Dee'', ident = ''d'', partner = Some 4, children = [5]\<rparr>,
              \<lparr>name = ''Ed'', ident = ''e'', partner = Some 3, children = []\<rparr>,
              \<lparr>name = ''Flo'', ident = ''f'', partner = Some 6, children = []\<rparr>,
              \<lparr>name = ''Zoe'', ident = ''z'', partner = Some 5, children = []\<rparr>]
             (\<lambda>p. if p \<in> {3, 4} then 80 else if p \<in> {5, 6} then 50 else 0) 3 0 0 c)) =
     Some [\<lparr>box = 3, dx = - 30, dy = 0\<rparr>, \<lparr>box = 4, dx = 70, dy = 0\<rparr>,
           \<lparr>box = 5, dx = 30, dy = 55\<rparr>, \<lparr>box = 6, dx = 100, dy = 55\<rparr>] \<and>
   specPlace 5
     [\<lparr>name = ''Tom'', ident = ''t'', partner = Some 1, children = [2, 6]\<rparr>,
      \<lparr>name = ''Una'', ident = ''u'', partner = Some 0, children = []\<rparr>,
      \<lparr>name = ''Rex'', ident = ''r'', partner = None, children = [3]\<rparr>,
      \<lparr>name = ''Dee'', ident = ''d'', partner = Some 4, children = [5]\<rparr>,
      \<lparr>name = ''Ed'', ident = ''e'', partner = Some 3, children = []\<rparr>,
      \<lparr>name = ''Flo'', ident = ''f'', partner = Some 6, children = []\<rparr>,
      \<lparr>name = ''Zoe'', ident = ''z'', partner = Some 5, children = []\<rparr>]
     (\<lambda>p. if p \<in> {3, 4} then 80 else if p \<in> {5, 6} then 50 else 0) 3 0 0 =
     Some [\<lparr>box = 3, dx = 0, dy = 0\<rparr>, \<lparr>box = 4, dx = 100, dy = 0\<rparr>,
           \<lparr>box = 5, dx = 30, dy = 55\<rparr>, \<lparr>box = 6, dx = 100, dy = 55\<rparr>]"
proof -
  let ?ps = "[\<lparr>name = ''Tom'', ident = ''t'', partner = Some 1, children = [2, 6]\<rparr>,
      \<lparr>name = ''Una'', ident = ''u'', partner = Some 0, children = []\<rparr>,
      \<lparr>name = ''Rex'', ident = ''r'', partner = None, children = [3]\<rparr>,
      \<lparr>name = ''Dee'', ident = ''d'', partner = Some 4, children = [5]\<rparr>,
      \<lparr>name = ''Ed'', ident = ''e'', partner = Some 3, children = []\<rparr>,
      \<lparr>name = ''Flo'', ident = ''f'', partner = Some 6, children = []\<rparr>,
      \<lparr>name = ''Zoe'', ident = ''z'', partner = Some 5, children = []\<rparr>] :: LinkedPerson list"
  let ?first = "\<lambda>p::nat. if p \<in> {0, 1, 2, 6, 5} then 50 else 0 :: real"
  let ?second = "\<lambda>p::nat. if p \<in> {3, 4} then 80 else if p \<in> {5, 6} then 50 else 0 :: real"
  have "fromJSON
     [[\<lparr>name = ''Tom'', ident = ''t'', partner = Some ''u'', children = Some [''r'', ''z'']\<rparr>,
       \<lparr>name = ''Una'', ident = ''u'', partner = Some ''t'', children = None\<rparr>,
       \<lparr>name = ''Rex'', ident = ''r'', partner = None, children = Some [''d'']\<rparr>,
       \<lparr>name = ''Dee'', ident = ''d'', partner = Some ''e'', children = Some [''f'']\<rparr>,
       \<lparr>name = ''Ed'', ident = ''e'', partner = Some ''d'', children = None\<rparr>,
       \<lparr>name = ''Flo'', ident = ''f'', partner = Some ''z'', children = None\<rparr>,
       \<lparr>name = ''Zoe'', ident = ''z'', partner = Some ''f'', children = None\<rparr>]] = Inr (?ps, [])"
    by code_simp
  moreover have "effectiveRoot ?ps 0 = 0" by code_simp
  moreover have "showPerson 5 ?ps 0 = Some [0, 1, 2, 6, 5]" by code_simp
  moreover have "effectiveRoot ?ps 5 = 3" by code_simp
  moreover have "showPerson 5 ?ps 3 = Some [3, 4, 5, 6]" by code_simp
  moreover have "(case place 5 ?ps ?first 0 0 0 noWidths of
      None \<Rightarrow> None
    | Some (ms, c) \<Rightarrow> map_option fst (place 5 ?ps ?second 3 0 0 c)) =
     Some [\<lparr>box = 3, dx = - 30, dy = 0\<rparr>, \<lparr>box = 4, dx = 70, dy = 0\<rparr>,
           \<lparr>box = 5, dx = 30, dy = 55\<rparr>, \<lparr>box = 6, dx = 100, dy = 55\<rparr>]"
    by code_simp
  moreover have "specPlace 5 ?ps ?second 3 0 0 =
     Some [\<lparr>box = 3, dx = 0, dy = 0\<rparr>, \<lparr>box = 4, dx = 100, dy = 0\<rparr>,
           \<lparr>box = 5, dx = 30, dy = 55\<rparr>, \<lparr>box = 6, dx = 100, dy = 55\<rparr>]"
    by code_simp
  ultimately show ?thesis by (intro conjI)
qed

subsection \<open>Where the placement meets the specification\<close>

text \<open>
  Below the person, and to a depth of at most \<open>n\<close> persons, only persons with a partner
  have children: there \<^verbatim>\<open>getChildrenWidth\<close> finds no children that \<^verbatim>\<open>show\<close> leaves
  out.
\<close>

fun pairsWithin :: "nat \<Rightarrow> LinkedPerson list \<Rightarrow> nat \<Rightarrow> bool" where
  "pairsWithin 0 ps p = False"
| "pairsWithin (Suc n) ps p =
     ((partner (ps ! p) = None \<longrightarrow> children (ps ! p) = []) \<and>
      (\<forall>child\<in>set (children (ps ! p)). pairsWithin n ps child))"

text \<open>Every width memoised is the width that section 4.4 gives the person.\<close>

definition memoMeetsSpec :: "LinkedPerson list \<Rightarrow> (nat \<Rightarrow> real) \<Rightarrow> cache \<Rightarrow> bool" where
  "memoMeetsSpec ps ow c = (\<forall>p w. cached c p = Some w \<longrightarrow> (\<exists>f. specWidth f ps ow p = Some w))"

lemma pairsWithin_mono: "pairsWithin n ps p \<Longrightarrow> n \<le> m \<Longrightarrow> pairsWithin m ps p"
proof (induction n arbitrary: m p)
  case 0
  then show ?case by simp
next
  case (Suc n)
  from Suc.prems(2) obtain m' where m: "m = Suc m'" "n \<le> m'" by (cases m) auto
  from Suc.prems(1) have alone: "partner (ps ! p) = None \<longrightarrow> children (ps ! p) = []"
    and "\<forall>child\<in>set (children (ps ! p)). pairsWithin n ps child" by simp_all
  with Suc.IH m(2) have "\<forall>child\<in>set (children (ps ! p)). pairsWithin m' ps child" by blast
  with alone m(1) show ?case by simp
qed

lemma memoMeetsSpec_noWidths: "memoMeetsSpec ps ow noWidths"
  by (simp add: memoMeetsSpec_def cached_def noWidths_def)

lemma partnerWidth_same: "getPartnerWidth ps ow p = specPartnerWidth ps ow p"
  by (simp add: getPartnerWidth_def specPartnerWidth_def)

lemma partnerWidth_nonneg:
  assumes "\<And>p. 0 \<le> ow p"
  shows "0 \<le> specPartnerWidth ps ow p"
proof (cases "partner (ps ! p)")
  case None
  with assms [of p] show ?thesis by (simp add: specPartnerWidth_def)
next
  case (Some q)
  with assms [of p] assms [of q] show ?thesis by (simp add: specPartnerWidth_def PERSON_SPACE_def)
qed

lemma those_map_stable:
  "(\<And>x v. x \<in> set xs \<Longrightarrow> g x = Some v \<Longrightarrow> h x = Some v) \<Longrightarrow>
     those (map g xs) = Some vs \<Longrightarrow> those (map h xs) = Some vs"
proof (induction xs arbitrary: vs)
  case Nil
  then show ?case by simp
next
  case (Cons x xs)
  from Cons.prems(2) obtain v ws where v: "g x = Some v" and ws: "those (map g xs) = Some ws"
    and vs: "vs = v # ws"
    by (auto split: option.splits)
  from Cons.prems(1) [OF _ v] have "h x = Some v" by simp
  moreover from Cons.IH [OF _ ws] Cons.prems(1) have "those (map h xs) = Some ws" by simp
  ultimately show ?case using vs by simp
qed

text \<open>A larger bound on the depth does not change a width of the specification.\<close>

lemma specWidth_stable: "specWidth f ps ow p = Some w \<Longrightarrow> f \<le> g \<Longrightarrow> specWidth g ps ow p = Some w"
proof (induction f arbitrary: g p w)
  case 0
  then show ?case by simp
next
  case (Suc f)
  from Suc.prems(2) obtain g' where g: "g = Suc g'" "f \<le> g'" by (cases g) auto
  from Suc.prems(1) obtain cw where cw: "specChildrenWidth f ps ow p = Some cw"
    and w: "w = max (specPartnerWidth ps ow p) cw"
    by auto
  have "specChildrenWidth g' ps ow p = Some cw"
  proof (cases "partner (ps ! p) = None \<or> children (ps ! p) = []")
    case True
    with cw show ?thesis by (simp add: specChildrenWidth.simps)
  next
    case False
    with cw obtain ws where ws: "those (map (specWidth f ps ow) (children (ps ! p))) = Some ws"
      and c: "cw = sum_list ws + PERSON_SPACE * (real (length (children (ps ! p))) - 1)"
      by (auto simp: specChildrenWidth.simps)
    have "those (map (specWidth g' ps ow) (children (ps ! p))) = Some ws"
    proof (rule those_map_stable [OF _ ws])
      fix x v
      assume "specWidth f ps ow x = Some v"
      then show "specWidth g' ps ow x = Some v" using g(2) by (rule Suc.IH)
    qed
    with False c show ?thesis by (auto simp: specChildrenWidth.simps)
  qed
  with w g(1) show ?case by simp
qed

lemma specWidth_unique:
  assumes "specWidth f ps ow p = Some w" and "specWidth g ps ow p = Some w'"
  shows "w' = w"
proof -
  from specWidth_stable [OF assms(1), of "max f g"] have "specWidth (max f g) ps ow p = Some w" by simp
  moreover from specWidth_stable [OF assms(2), of "max f g"] have "specWidth (max f g) ps ow p = Some w'"
    by simp
  ultimately show ?thesis by simp
qed

text \<open>
  Under these conditions \<^verbatim>\<open>getWidth\<close> returns, with the width of the specification, and
  what it memoises is that width.
\<close>

lemma reduceWidths_meets_spec:
  assumes gw: "\<And>child c. child \<in> set cs \<Longrightarrow> memoMeetsSpec ps ow c \<Longrightarrow>
                 \<exists>w c'. gw child c = Some (w, c') \<and> sw child = Some w \<and> memoMeetsSpec ps ow c'"
    and m: "memoMeetsSpec ps ow c"
  shows "\<exists>ws c'. reduceWidths gw cs acc c = Some (acc + sum_list ws, c') \<and>
           those (map sw cs) = Some ws \<and> memoMeetsSpec ps ow c'"
  using gw m
proof (induction cs arbitrary: acc c)
  case Nil
  then show ?case by simp
next
  case (Cons child rest)
  from Cons.prems(1) [OF _ Cons.prems(2), of child] obtain w c1 where
    g: "gw child c = Some (w, c1)" and s: "sw child = Some w" and m1: "memoMeetsSpec ps ow c1"
    by auto
  have "\<exists>ws c'. reduceWidths gw rest (acc + w) c1 = Some (acc + w + sum_list ws, c') \<and>
          those (map sw rest) = Some ws \<and> memoMeetsSpec ps ow c'"
  proof (rule Cons.IH [OF _ m1])
    fix x c
    assume "x \<in> set rest" "memoMeetsSpec ps ow c"
    then show "\<exists>w c'. gw x c = Some (w, c') \<and> sw x = Some w \<and> memoMeetsSpec ps ow c'"
      using Cons.prems(1) [of x c] by simp
  qed
  then obtain ws c' where "reduceWidths gw rest (acc + w) c1 = Some (acc + w + sum_list ws, c')"
    "those (map sw rest) = Some ws" "memoMeetsSpec ps ow c'" by blast
  with g s have "reduceWidths gw (child # rest) acc c = Some (acc + sum_list (w # ws), c') \<and>
    those (map sw (child # rest)) = Some (w # ws) \<and> memoMeetsSpec ps ow c'"
    by (simp add: add.assoc)
  then show ?case by blast
qed

lemma getChildrenWidth_meets_spec_step:
  assumes gw: "\<And>child c. child \<in> set (children (ps ! p)) \<Longrightarrow> memoMeetsSpec ps ow c \<Longrightarrow>
                 \<exists>w c'. getWidth f ps ow child c = Some (w, c') \<and> specWidth f ps ow child = Some w \<and>
                        memoMeetsSpec ps ow c'"
    and m: "memoMeetsSpec ps ow c"
  shows "\<exists>cw c'. getChildrenWidth f ps ow p c = Some (cw, c') \<and> memoMeetsSpec ps ow c' \<and>
           (children (ps ! p) = [] \<longrightarrow> cw = - PERSON_SPACE) \<and>
           (partner (ps ! p) \<noteq> None \<longrightarrow> children (ps ! p) \<noteq> [] \<longrightarrow>
              specChildrenWidth f ps ow p = Some cw)"
proof -
  have "\<exists>ws c'. reduceWidths (getWidth f ps ow) (children (ps ! p)) 0 c = Some (0 + sum_list ws, c') \<and>
          those (map (specWidth f ps ow) (children (ps ! p))) = Some ws \<and> memoMeetsSpec ps ow c'"
    using gw m by (rule reduceWidths_meets_spec)
  then obtain ws c' where
    r: "reduceWidths (getWidth f ps ow) (children (ps ! p)) 0 c = Some (sum_list ws, c')"
    and t: "those (map (specWidth f ps ow) (children (ps ! p))) = Some ws"
    and m': "memoMeetsSpec ps ow c'"
    by auto
  let ?cw = "sum_list ws + (real (length (children (ps ! p))) - 1) * PERSON_SPACE"
  from r have g: "getChildrenWidth f ps ow p c = Some (?cw, c')"
    by (simp add: getChildrenWidth.simps)
  have none: "?cw = - PERSON_SPACE" if "children (ps ! p) = []"
    using that t by simp
  have some: "specChildrenWidth f ps ow p = Some ?cw"
    if "partner (ps ! p) \<noteq> None" "children (ps ! p) \<noteq> []"
    using that t by (auto simp: specChildrenWidth.simps mult.commute)
  from g m' none some show ?thesis by blast
qed

lemma specWidth_childless:
  assumes "\<And>p. 0 \<le> ow p" and "children (ps ! p) = []"
  shows "specWidth (Suc f) ps ow p = Some (max (specPartnerWidth ps ow p) (- PERSON_SPACE))"
proof -
  from partnerWidth_nonneg [of ow ps p] assms(1) have "0 \<le> specPartnerWidth ps ow p" by simp
  then have "max (specPartnerWidth ps ow p) 0 = max (specPartnerWidth ps ow p) (- PERSON_SPACE)"
    by (simp add: PERSON_SPACE_def)
  with assms(2) show ?thesis by (simp add: specChildrenWidth.simps)
qed

lemma getWidth_meets_spec:
  assumes nonneg: "\<And>p. 0 \<le> ow p"
  shows "pairsWithin f ps p \<Longrightarrow> memoMeetsSpec ps ow c \<Longrightarrow>
           \<exists>w c'. getWidth f ps ow p c = Some (w, c') \<and> specWidth f ps ow p = Some w \<and>
                  memoMeetsSpec ps ow c'"
proof (induction f arbitrary: p c)
  case 0
  then show ?case by simp
next
  case (Suc f)
  from Suc.prems(1) have alone: "partner (ps ! p) = None \<longrightarrow> children (ps ! p) = []"
    and kids: "\<And>child. child \<in> set (children (ps ! p)) \<Longrightarrow> pairsWithin f ps child"
    by simp_all
  have "\<exists>cw c'. getChildrenWidth f ps ow p c = Some (cw, c') \<and> memoMeetsSpec ps ow c' \<and>
           (children (ps ! p) = [] \<longrightarrow> cw = - PERSON_SPACE) \<and>
           (partner (ps ! p) \<noteq> None \<longrightarrow> children (ps ! p) \<noteq> [] \<longrightarrow>
              specChildrenWidth f ps ow p = Some cw)"
  proof (rule getChildrenWidth_meets_spec_step [OF _ Suc.prems(2)])
    fix child c
    assume "child \<in> set (children (ps ! p))" and mc: "memoMeetsSpec ps ow c"
    then have "pairsWithin f ps child" by (simp add: kids)
    then show "\<exists>w c'. getWidth f ps ow child c = Some (w, c') \<and> specWidth f ps ow child = Some w \<and>
                     memoMeetsSpec ps ow c'"
      using mc by (rule Suc.IH)
  qed
  then obtain cw c1 where g: "getChildrenWidth f ps ow p c = Some (cw, c1)"
    and m1: "memoMeetsSpec ps ow c1"
    and none: "children (ps ! p) = [] \<Longrightarrow> cw = - PERSON_SPACE"
    and some: "partner (ps ! p) \<noteq> None \<Longrightarrow> children (ps ! p) \<noteq> [] \<Longrightarrow>
                 specChildrenWidth f ps ow p = Some cw"
    by blast
  let ?w = "max (specPartnerWidth ps ow p) cw"
  have spec: "specWidth (Suc f) ps ow p = Some ?w"
  proof (cases "children (ps ! p) = []")
    case True
    with specWidth_childless [of ow ps p f] nonneg none show ?thesis by simp
  next
    case False
    with alone some show ?thesis by simp
  qed
  show ?case
  proof (cases "cached c p")
    case (Some v)
    with Suc.prems(2) obtain f' where "specWidth f' ps ow p = Some v"
      by (auto simp: memoMeetsSpec_def)
    with spec have "v = ?w" by (rule specWidth_unique)
    with Some spec Suc.prems(2) show ?thesis by simp
  next
    case None
    with g have gw: "getWidth (Suc f) ps ow p c = Some (?w, c1(p := Some ?w))"
      by (simp add: partnerWidth_same)
    have "memoMeetsSpec ps ow (c1(p := Some ?w))"
      unfolding memoMeetsSpec_def
    proof (intro allI impI)
      fix q v
      assume cq: "cached (c1(p := Some ?w)) q = Some v"
      show "\<exists>f. specWidth f ps ow q = Some v"
      proof (cases "q = p")
        case True
        with cq have "v = ?w" by (auto simp: cached_def split: if_splits)
        with spec True show ?thesis by blast
      next
        case False
        with cq have "cached c1 q = Some v" by (simp add: cached_def)
        with m1 show ?thesis by (simp add: memoMeetsSpec_def)
      qed
    qed
    with gw spec show ?thesis by blast
  qed
qed

lemma getChildrenWidth_meets_spec:
  assumes nonneg: "\<And>p. 0 \<le> ow p"
    and kids: "\<And>child. child \<in> set (children (ps ! p)) \<Longrightarrow> pairsWithin f ps child"
    and m: "memoMeetsSpec ps ow c"
  shows "\<exists>cw c'. getChildrenWidth f ps ow p c = Some (cw, c') \<and> memoMeetsSpec ps ow c' \<and>
           (children (ps ! p) = [] \<longrightarrow> cw = - PERSON_SPACE) \<and>
           (partner (ps ! p) \<noteq> None \<longrightarrow> children (ps ! p) \<noteq> [] \<longrightarrow>
              specChildrenWidth f ps ow p = Some cw)"
proof (rule getChildrenWidth_meets_spec_step [OF _ m])
  fix child c
  assume "child \<in> set (children (ps ! p))" and mc: "memoMeetsSpec ps ow c"
  then have "pairsWithin f ps child" by (simp add: kids)
  with nonneg show "\<exists>w c'. getWidth f ps ow child c = Some (w, c') \<and> specWidth f ps ow child = Some w \<and>
                     memoMeetsSpec ps ow c'"
    using mc by (rule getWidth_meets_spec)
qed

text \<open>
  The start of the row of children. At equal widths the code takes its second branch, which
  gives \<open>x + 0\<close>; for a pair without children, where its children width is \<open>-20\<close>, the
  start is not used.
\<close>

lemma childrenLeft_meets_spec:
  assumes nonneg: "\<And>p. 0 \<le> ow p"
    and kids: "\<And>child. child \<in> set (children (ps ! p)) \<Longrightarrow> pairsWithin f ps child"
    and m: "memoMeetsSpec ps ow c"
    and pq: "partner (ps ! p) = Some q"
  shows "\<exists>l c'. childrenLeft f ps ow p x c = Some (l, c') \<and> memoMeetsSpec ps ow c' \<and>
           (children (ps ! p) \<noteq> [] \<longrightarrow>
              (\<exists>cw. specChildrenWidth f ps ow p = Some cw \<and>
                    l = (if cw \<ge> specPartnerWidth ps ow p then x
                         else x + (specPartnerWidth ps ow p - cw) / 2)))"
proof -
  from getChildrenWidth_meets_spec [of ow ps p f c] nonneg kids m pq
  obtain cw c1 where g1: "getChildrenWidth f ps ow p c = Some (cw, c1)"
    and m1: "memoMeetsSpec ps ow c1"
    and s1: "children (ps ! p) \<noteq> [] \<Longrightarrow> specChildrenWidth f ps ow p = Some cw"
    by auto
  from getChildrenWidth_meets_spec [of ow ps p f c1] nonneg kids m1 pq
  obtain cw' c2 where g2: "getChildrenWidth f ps ow p c1 = Some (cw', c2)"
    and m2: "memoMeetsSpec ps ow c2"
    and s2: "children (ps ! p) \<noteq> [] \<Longrightarrow> specChildrenWidth f ps ow p = Some cw'"
    by auto
  show ?thesis
  proof (cases "cw > getPartnerWidth ps ow p")
    case True
    with g1 have "childrenLeft f ps ow p x c = Some (x, c1)" by (simp add: childrenLeft_def)
    moreover from True have "cw \<ge> specPartnerWidth ps ow p" by (simp add: partnerWidth_same)
    ultimately show ?thesis using m1 s1 by auto
  next
    case False
    with g1 g2 have l: "childrenLeft f ps ow p x c = Some (x + (getPartnerWidth ps ow p - cw') / 2, c2)"
      by (simp add: childrenLeft_def)
    have "\<exists>cw. specChildrenWidth f ps ow p = Some cw \<and>
            x + (getPartnerWidth ps ow p - cw') / 2 =
              (if cw \<ge> specPartnerWidth ps ow p then x else x + (specPartnerWidth ps ow p - cw) / 2)"
      if ne: "children (ps ! p) \<noteq> []"
    proof -
      from s1 [OF ne] s2 [OF ne] have same: "cw' = cw" by simp
      from False have "cw \<le> specPartnerWidth ps ow p" by (simp add: partnerWidth_same)
      with same have "x + (getPartnerWidth ps ow p - cw') / 2 =
          (if cw \<ge> specPartnerWidth ps ow p then x else x + (specPartnerWidth ps ow p - cw) / 2)"
        by (simp add: partnerWidth_same)
      with s1 [OF ne] show ?thesis by blast
    qed
    with l m2 show ?thesis by blast
  qed
qed

lemma placeChildren_meets_spec:
  assumes pl: "\<And>child l c. child \<in> set cs \<Longrightarrow> memoMeetsSpec ps ow c \<Longrightarrow>
                 \<exists>ms c'. pl child l y c = Some (ms, c') \<and> spl child l = Some ms \<and> memoMeetsSpec ps ow c'"
    and gw: "\<And>child c. child \<in> set cs \<Longrightarrow> memoMeetsSpec ps ow c \<Longrightarrow>
                 \<exists>w c'. gw child c = Some (w, c') \<and> sw child = Some w \<and> memoMeetsSpec ps ow c'"
    and m: "memoMeetsSpec ps ow c"
  shows "\<exists>ms c'. placeChildren pl gw cs l y c = Some (ms, c') \<and> specRow spl sw cs l = Some ms \<and>
           memoMeetsSpec ps ow c'"
  using pl gw m
proof (induction cs arbitrary: l c)
  case Nil
  then show ?case by simp
next
  case (Cons child rest)
  from Cons.prems(1) [OF _ Cons.prems(3), of child l] obtain ms1 c1 where
    p1: "pl child l y c = Some (ms1, c1)" and s1: "spl child l = Some ms1"
    and m1: "memoMeetsSpec ps ow c1"
    by auto
  from Cons.prems(2) [OF _ m1, of child] obtain w c2 where
    g2: "gw child c1 = Some (w, c2)" and s2: "sw child = Some w" and m2: "memoMeetsSpec ps ow c2"
    by auto
  have "\<exists>ms c'. placeChildren pl gw rest (l + (w + PERSON_SPACE)) y c2 = Some (ms, c') \<and>
          specRow spl sw rest (l + (w + PERSON_SPACE)) = Some ms \<and> memoMeetsSpec ps ow c'"
  proof (rule Cons.IH [OF _ _ m2])
    fix x l c
    assume "x \<in> set rest" "memoMeetsSpec ps ow c"
    then show "\<exists>ms c'. pl x l y c = Some (ms, c') \<and> spl x l = Some ms \<and> memoMeetsSpec ps ow c'"
      using Cons.prems(1) [of x c l] by simp
  next
    fix x c
    assume "x \<in> set rest" "memoMeetsSpec ps ow c"
    then show "\<exists>w c'. gw x c = Some (w, c') \<and> sw x = Some w \<and> memoMeetsSpec ps ow c'"
      using Cons.prems(2) [of x c] by simp
  qed
  then obtain ms2 c3 where
    "placeChildren pl gw rest (l + (w + PERSON_SPACE)) y c2 = Some (ms2, c3)"
    "specRow spl sw rest (l + (w + PERSON_SPACE)) = Some ms2" "memoMeetsSpec ps ow c3"
    by blast
  with p1 s1 g2 s2 have "placeChildren pl gw (child # rest) l y c = Some (ms1 @ ms2, c3) \<and>
    specRow spl sw (child # rest) l = Some (ms1 @ ms2) \<and> memoMeetsSpec ps ow c3"
    by (simp add: add.assoc)
  then show ?case by blast
qed

text \<open>
  On these graphs, and with no width memoised that section 4.4 does not give,
  \<^verbatim>\<open>place\<close> returns, and it returns the placement of the specification.
\<close>

lemma place_meets_spec_memo:
  assumes nonneg: "\<And>p. 0 \<le> ow p"
  shows "pairsWithin f ps p \<Longrightarrow> memoMeetsSpec ps ow c \<Longrightarrow>
           \<exists>ms c'. place (Suc f) ps ow p x y c = Some (ms, c') \<and>
                   specPlace (Suc f) ps ow p x y = Some ms \<and> memoMeetsSpec ps ow c'"
proof (induction f arbitrary: p x y c)
  case 0
  then show ?case by simp
next
  case (Suc f)
  from Suc.prems(1) have kids: "\<And>child. child \<in> set (children (ps ! p)) \<Longrightarrow> pairsWithin f ps child"
    by simp
  have kids': "pairsWithin (Suc f) ps child" if "child \<in> set (children (ps ! p))" for child
  proof -
    have "f \<le> Suc f" by simp
    with kids [OF that] show ?thesis by (rule pairsWithin_mono)
  qed
  from getWidth_meets_spec [of ow "Suc f" ps p c] nonneg Suc.prems
  obtain w c1 where g: "getWidth (Suc f) ps ow p c = Some (w, c1)"
    and s: "specWidth (Suc f) ps ow p = Some w" and m1: "memoMeetsSpec ps ow c1"
    by blast
  let ?boxLeft = "x + (w - specPartnerWidth ps ow p) / 2"
  show ?case
  proof (cases "partner (ps ! p)")
    case None
    from g None have "place (Suc (Suc f)) ps ow p x y c = Some ([\<lparr>box = p, dx = ?boxLeft, dy = y\<rparr>], c1)"
      unfolding place.simps by (simp add: Let_def partnerWidth_same)
    moreover from s None have "specPlace (Suc (Suc f)) ps ow p x y = Some [\<lparr>box = p, dx = ?boxLeft, dy = y\<rparr>]"
      by (subst specPlace.simps) (simp add: Let_def del: specPlace.simps specWidth.simps)
    ultimately show ?thesis using m1 by blast
  next
    case (Some q)
    from childrenLeft_meets_spec [of ow ps p "Suc f" c1 q x] nonneg kids' m1 Some
    obtain l c2 where cl: "childrenLeft (Suc f) ps ow p x c1 = Some (l, c2)"
      and m2: "memoMeetsSpec ps ow c2"
      and sl: "children (ps ! p) \<noteq> [] \<Longrightarrow>
                 \<exists>cw. specChildrenWidth (Suc f) ps ow p = Some cw \<and>
                      l = (if cw \<ge> specPartnerWidth ps ow p then x
                           else x + (specPartnerWidth ps ow p - cw) / 2)"
      by blast
    have "\<exists>ms c'. placeChildren (place (Suc f) ps ow) (getWidth (Suc f) ps ow) (children (ps ! p))
                     l (y + GEN_SPACE) c2 = Some (ms, c') \<and>
            specRow (\<lambda>child left. specPlace (Suc f) ps ow child left (y + GEN_SPACE))
              (specWidth (Suc f) ps ow) (children (ps ! p)) l = Some ms \<and>
            memoMeetsSpec ps ow c'"
    proof (rule placeChildren_meets_spec [OF _ _ m2])
      fix child l c
      assume "child \<in> set (children (ps ! p))" and mc: "memoMeetsSpec ps ow c"
      then have "pairsWithin f ps child" by (simp add: kids)
      then show "\<exists>ms c'. place (Suc f) ps ow child l (y + GEN_SPACE) c = Some (ms, c') \<and>
                   specPlace (Suc f) ps ow child l (y + GEN_SPACE) = Some ms \<and> memoMeetsSpec ps ow c'"
        using mc by (rule Suc.IH)
    next
      fix child c
      assume "child \<in> set (children (ps ! p))" and mc: "memoMeetsSpec ps ow c"
      then have "pairsWithin (Suc f) ps child" by (intro kids')
      with nonneg show "\<exists>w c'. getWidth (Suc f) ps ow child c = Some (w, c') \<and>
                   specWidth (Suc f) ps ow child = Some w \<and> memoMeetsSpec ps ow c'"
        using mc by (rule getWidth_meets_spec)
    qed
    then obtain row c3 where
      pc: "placeChildren (place (Suc f) ps ow) (getWidth (Suc f) ps ow) (children (ps ! p))
             l (y + GEN_SPACE) c2 = Some (row, c3)"
      and sr: "specRow (\<lambda>child left. specPlace (Suc f) ps ow child left (y + GEN_SPACE))
                 (specWidth (Suc f) ps ow) (children (ps ! p)) l = Some row"
      and m3: "memoMeetsSpec ps ow c3"
      by blast
    let ?ms = "\<lparr>box = p, dx = ?boxLeft, dy = y\<rparr> #
               \<lparr>box = q, dx = ?boxLeft + ow p + PERSON_SPACE, dy = y\<rparr> # row"
    from g Some cl pc have code: "place (Suc (Suc f)) ps ow p x y c = Some (?ms, c3)"
      unfolding place.simps by (simp add: Let_def partnerWidth_same)
    have spec: "specPlace (Suc (Suc f)) ps ow p x y = Some ?ms"
    proof (cases "children (ps ! p) = []")
      case True
      then have "specChildrenWidth (Suc f) ps ow p = Some 0" by (simp add: specChildrenWidth.simps)
      moreover from True sr have "row = []" by simp
      ultimately show ?thesis
        using s Some True by (subst specPlace.simps) (simp add: Let_def del: specPlace.simps specWidth.simps)
    next
      case False
      from sl [OF False] obtain cw where cw: "specChildrenWidth (Suc f) ps ow p = Some cw"
        and l: "l = (if cw \<ge> specPartnerWidth ps ow p then x
                     else x + (specPartnerWidth ps ow p - cw) / 2)"
        by blast
      from sr have "specRow (\<lambda>child left. specPlace (Suc f) ps ow child left (y + GEN_SPACE))
                 (specWidth (Suc f) ps ow) (children (ps ! p))
                 (if cw \<ge> specPartnerWidth ps ow p then x
                  else x + (specPartnerWidth ps ow p - cw) / 2) = Some row"
        unfolding l .
      with s Some cw show ?thesis
        by (subst specPlace.simps) (simp add: Let_def del: specPlace.simps specWidth.simps)
    qed
    from code spec m3 show ?thesis by blast
  qed
qed

lemma place_meets_spec:
  assumes "\<And>p. 0 \<le> ow p" and "pairsWithin f ps p"
  shows "\<exists>ms c'. place (Suc f) ps ow p x y noWidths = Some (ms, c') \<and>
           specPlace (Suc f) ps ow p x y = Some ms"
proof -
  from place_meets_spec_memo [of ow f ps p noWidths x y] assms memoMeetsSpec_noWidths
  show ?thesis by blast
qed

subsection \<open>Only a person's own children are rendered\<close>

text \<open>
  The persons reached from \<open>r\<close> along children links, \<open>r\<close> included, and two graphs that
  give each of these persons the same partner and the same children.
\<close>

inductive_set descendants :: "LinkedPerson list \<Rightarrow> nat \<Rightarrow> nat set"
  for ps :: "LinkedPerson list" and r :: nat where
  self: "r \<in> descendants ps r"
| child: "p \<in> descendants ps r \<Longrightarrow> c \<in> set (children (ps ! p)) \<Longrightarrow> c \<in> descendants ps r"

definition agreeOn :: "nat set \<Rightarrow> LinkedPerson list \<Rightarrow> LinkedPerson list \<Rightarrow> bool" where
  "agreeOn D ps ps' =
     (\<forall>p\<in>D. partner (ps' ! p) = partner (ps ! p) \<and> children (ps' ! p) = children (ps ! p))"

definition partnersOf :: "LinkedPerson list \<Rightarrow> nat set \<Rightarrow> nat set" where
  "partnersOf ps D = {q. \<exists>p\<in>D. partner (ps ! p) = Some q}"

lemma reduceWidths_cong:
  "(\<And>child c. child \<in> set cs \<Longrightarrow> gw child c = gw' child c) \<Longrightarrow>
     reduceWidths gw cs acc c = reduceWidths gw' cs acc c"
  by (induction cs arbitrary: acc c) (auto split: option.splits)

lemma mapCalls_cong:
  "(\<And>child. child \<in> set cs \<Longrightarrow> g child = g' child) \<Longrightarrow> mapCalls g cs = mapCalls g' cs"
  by (induction cs) (auto split: option.splits)

lemma placeChildren_cong:
  "(\<And>child l y c. child \<in> set cs \<Longrightarrow> pl child l y c = pl' child l y c) \<Longrightarrow>
   (\<And>child c. child \<in> set cs \<Longrightarrow> gw child c = gw' child c) \<Longrightarrow>
     placeChildren pl gw cs l y c = placeChildren pl' gw' cs l y c"
  by (induction cs arbitrary: l c) (auto split: option.splits)

lemma mapCalls_set:
  "(\<And>child xs. child \<in> set cs \<Longrightarrow> g child = Some xs \<Longrightarrow> set xs \<subseteq> S) \<Longrightarrow>
     mapCalls g cs = Some ys \<Longrightarrow> set ys \<subseteq> S"
proof (induction cs arbitrary: ys)
  case Nil
  then show ?case by simp
next
  case (Cons child rest)
  from Cons.prems(2) obtain xs zs where "g child = Some xs" "mapCalls g rest = Some zs" "ys = xs @ zs"
    by (auto split: option.splits)
  moreover have "set xs \<subseteq> S"
    using Cons.prems(1) [of child xs] \<open>g child = Some xs\<close> by simp
  moreover have "set zs \<subseteq> S"
  proof (rule Cons.IH [OF _ \<open>mapCalls g rest = Some zs\<close>])
    fix k vs
    assume "k \<in> set rest" "g k = Some vs"
    then show "set vs \<subseteq> S" using Cons.prems(1) [of k vs] by simp
  qed
  ultimately show ?case by auto
qed

lemma placeChildren_boxes:
  "(\<And>child l y c ms c'. child \<in> set cs \<Longrightarrow> pl child l y c = Some (ms, c') \<Longrightarrow> box ` set ms \<subseteq> S) \<Longrightarrow>
     placeChildren pl gw cs l y c = Some (ms, c') \<Longrightarrow> box ` set ms \<subseteq> S"
proof (induction cs arbitrary: l c ms)
  case Nil
  then show ?case by simp
next
  case (Cons child rest)
  from Cons.prems(2) obtain ms1 c1 w c2 ms2 where
    p: "pl child l y c = Some (ms1, c1)" and g: "gw child c1 = Some (w, c2)"
    and r: "placeChildren pl gw rest (l + (w + PERSON_SPACE)) y c2 = Some (ms2, c')"
    and ms: "ms = ms1 @ ms2"
    by (auto split: option.splits)
  have "box ` set ms1 \<subseteq> S" using Cons.prems(1) [OF _ p] by simp
  moreover have "box ` set ms2 \<subseteq> S"
  proof (rule Cons.IH [OF _ r])
    fix k l1 y1 d1 ns d2
    assume "k \<in> set rest" "pl k l1 y1 d1 = Some (ns, d2)"
    then show "box ` set ns \<subseteq> S"
      using Cons.prems(1) [of k l1 y1 d1 ns d2] by simp
  qed
  ultimately show ?case using ms by auto
qed

lemma getWidth_frame:
  assumes "agreeOn (descendants ps r) ps ps'"
  shows "p \<in> descendants ps r \<Longrightarrow> getWidth f ps' ow p c = getWidth f ps ow p c"
proof (induction f arbitrary: p c)
  case 0
  then show ?case by simp
next
  case (Suc f)
  from Suc.prems assms have same: "partner (ps' ! p) = partner (ps ! p)" "children (ps' ! p) = children (ps ! p)"
    by (simp_all add: agreeOn_def)
  have kids: "child \<in> descendants ps r" if "child \<in> set (children (ps ! p))" for child
    using Suc.prems that by (rule descendants.child)
  have "reduceWidths (getWidth f ps' ow) (children (ps ! p)) 0 c =
          reduceWidths (getWidth f ps ow) (children (ps ! p)) 0 c"
    by (rule reduceWidths_cong) (simp add: Suc.IH kids)
  then have cwf: "getChildrenWidth f ps' ow p c = getChildrenWidth f ps ow p c"
    unfolding getChildrenWidth.simps same by simp
  have pwf: "getPartnerWidth ps' ow p = getPartnerWidth ps ow p"
    by (simp add: getPartnerWidth_def same)
  show ?case
    unfolding getWidth.simps cwf pwf ..
qed

lemma getChildrenWidth_frame:
  assumes "agreeOn (descendants ps r) ps ps'" and "p \<in> descendants ps r"
  shows "getChildrenWidth f ps' ow p c = getChildrenWidth f ps ow p c"
proof -
  from assms have same: "children (ps' ! p) = children (ps ! p)"
    by (simp add: agreeOn_def)
  have "reduceWidths (getWidth f ps' ow) (children (ps ! p)) 0 c =
          reduceWidths (getWidth f ps ow) (children (ps ! p)) 0 c"
    by (rule reduceWidths_cong) (simp add: getWidth_frame [OF assms(1)] descendants.child [OF assms(2)])
  then show ?thesis unfolding getChildrenWidth.simps same by simp
qed

lemma showPerson_frame:
  assumes "agreeOn (descendants ps r) ps ps'"
  shows "p \<in> descendants ps r \<Longrightarrow> showPerson f ps' p = showPerson f ps p"
proof (induction f arbitrary: p)
  case 0
  then show ?case by simp
next
  case (Suc f)
  from Suc.prems assms have same: "partner (ps' ! p) = partner (ps ! p)" "children (ps' ! p) = children (ps ! p)"
    by (simp_all add: agreeOn_def)
  have kids: "mapCalls (showPerson f ps') (children (ps ! p)) = mapCalls (showPerson f ps) (children (ps ! p))"
    by (rule mapCalls_cong) (simp add: Suc.IH descendants.child [OF Suc.prems])
  show ?case
    unfolding showPerson.simps same kids ..
qed

lemma draw_frame:
  assumes "agreeOn (descendants ps r) ps ps'"
  shows "p \<in> descendants ps r \<Longrightarrow> draw f ps' rc p = draw f ps rc p"
proof (induction f arbitrary: p)
  case 0
  then show ?case by simp
next
  case (Suc f)
  from Suc.prems assms have same: "partner (ps' ! p) = partner (ps ! p)" "children (ps' ! p) = children (ps ! p)"
    by (simp_all add: agreeOn_def)
  have kids: "child \<in> descendants ps r" if "child \<in> set (children (ps ! p))" for child
    using Suc.prems that by (rule descendants.child)
  have many: "mapCalls (\<lambda>child. map_option (\<lambda>ls. drawChildLine (rc child) # ls) (draw f ps' rc child))
                (children (ps ! p)) =
              mapCalls (\<lambda>child. map_option (\<lambda>ls. drawChildLine (rc child) # ls) (draw f ps rc child))
                (children (ps ! p))"
    by (rule mapCalls_cong) (simp add: Suc.IH kids)
  have one: "draw f ps' rc (children (ps ! p) ! 0) = draw f ps rc (children (ps ! p) ! 0)"
    if "length (children (ps ! p)) = 1"
    using that by (intro Suc.IH kids) (cases "children (ps ! p)", auto)
  show ?case
  proof (cases "length (children (ps ! p)) = 1")
    case True
    show ?thesis
      unfolding draw.simps same many one [OF True] ..
  next
    case False
    then show ?thesis
      unfolding draw.simps same many by (simp split: option.split)
  qed
qed

lemma childrenLeft_frame:
  assumes "agreeOn (descendants ps r) ps ps'" and "p \<in> descendants ps r"
  shows "childrenLeft f ps' ow p x c = childrenLeft f ps ow p x c"
proof -
  from assms have same: "partner (ps' ! p) = partner (ps ! p)"
    by (simp add: agreeOn_def)
  have pwf: "getPartnerWidth ps' ow p = getPartnerWidth ps ow p"
    by (simp add: getPartnerWidth_def same)
  show ?thesis
    unfolding childrenLeft_def getChildrenWidth_frame [OF assms] pwf ..
qed

lemma place_frame:
  assumes "agreeOn (descendants ps r) ps ps'"
  shows "p \<in> descendants ps r \<Longrightarrow> place f ps' ow p x y c = place f ps ow p x y c"
proof (induction f arbitrary: p x y c)
  case 0
  then show ?case by simp
next
  case (Suc f)
  from Suc.prems assms have same: "partner (ps' ! p) = partner (ps ! p)" "children (ps' ! p) = children (ps ! p)"
    by (simp_all add: agreeOn_def)
  have kids: "child \<in> descendants ps r" if "child \<in> set (children (ps ! p))" for child
    using Suc.prems that by (rule descendants.child)
  have row: "placeChildren (place f ps' ow) (getWidth f ps' ow) (children (ps ! p)) l y' c' =
             placeChildren (place f ps ow) (getWidth f ps ow) (children (ps ! p)) l y' c'" for l y' c'
    by (rule placeChildren_cong) (simp_all add: Suc.IH kids getWidth_frame [OF assms])
  have pwf: "getPartnerWidth ps' ow p = getPartnerWidth ps ow p"
    by (simp add: getPartnerWidth_def same)
  show ?case
    unfolding place.simps same row getWidth_frame [OF assms Suc.prems]
      childrenLeft_frame [OF assms Suc.prems] pwf ..
qed

lemma showPerson_within:
  "p \<in> descendants ps r \<Longrightarrow> showPerson f ps p = Some shown \<Longrightarrow>
     set shown \<subseteq> descendants ps r \<union> partnersOf ps (descendants ps r)"
proof (induction f arbitrary: p shown)
  case 0
  then show ?case by simp
next
  case (Suc f)
  show ?case
  proof (cases "partner (ps ! p)")
    case None
    with Suc.prems show ?thesis by auto
  next
    case (Some q)
    with Suc.prems(2) obtain rest where m: "mapCalls (showPerson f ps) (children (ps ! p)) = Some rest"
      and shown: "shown = p # q # rest"
      by (auto split: option.splits)
    have "set rest \<subseteq> descendants ps r \<union> partnersOf ps (descendants ps r)"
    proof (rule mapCalls_set [OF _ m])
      fix child xs
      assume "child \<in> set (children (ps ! p))" "showPerson f ps child = Some xs"
      with Suc.prems(1) show "set xs \<subseteq> descendants ps r \<union> partnersOf ps (descendants ps r)"
        by (intro Suc.IH) (auto intro: descendants.child)
    qed
    moreover have "q \<in> partnersOf ps (descendants ps r)"
      using Some Suc.prems(1) by (auto simp: partnersOf_def)
    ultimately show ?thesis using shown Suc.prems(1) by auto
  qed
qed

lemma place_within:
  "p \<in> descendants ps r \<Longrightarrow> place f ps ow p x y c = Some (ms, c') \<Longrightarrow>
     box ` set ms \<subseteq> descendants ps r \<union> partnersOf ps (descendants ps r)"
proof (induction f arbitrary: p x y c ms c')
  case 0
  then show ?case by simp
next
  case (Suc f)
  from Suc.prems(2) obtain w c1 where g: "getWidth f ps ow p c = Some (w, c1)"
    by (auto split: option.splits)
  show ?case
  proof (cases "partner (ps ! p)")
    case None
    with Suc.prems g show ?thesis by (auto simp: Let_def)
  next
    case (Some q)
    with Suc.prems(2) g obtain lft c2 row where
      r: "placeChildren (place f ps ow) (getWidth f ps ow) (children (ps ! p)) lft (y + GEN_SPACE) c2 =
            Some (row, c')"
      and ms: "box ` set ms = {p, q} \<union> box ` set row"
      by (auto simp: Let_def split: option.splits)
    have "box ` set row \<subseteq> descendants ps r \<union> partnersOf ps (descendants ps r)"
    proof (rule placeChildren_boxes [OF _ r])
      fix child l y c ms c'
      assume "child \<in> set (children (ps ! p))" "place f ps ow child l y c = Some (ms, c')"
      with Suc.prems(1) show "box ` set ms \<subseteq> descendants ps r \<union> partnersOf ps (descendants ps r)"
        by (intro Suc.IH) (auto intro: descendants.child)
    qed
    moreover have "q \<in> partnersOf ps (descendants ps r)"
      using Some Suc.prems(1) by (auto simp: partnersOf_def)
    ultimately show ?thesis using ms Suc.prems(1) by auto
  qed
qed

text \<open>
  Claim C10. \<^verbatim>\<open>show\<close>, \<^verbatim>\<open>place\<close> and \<^verbatim>\<open>draw\<close>, called on a root \<open>r\<close> with partner
  \<open>q\<close>, give the same boxes, moves and lines in any two graphs that agree on the partner
  and the children of the persons reached from \<open>r\<close> along children links: nothing else, in
  particular not the children of \<open>q\<close>, is read. The box of \<open>q\<close> is shown, and every box
  shown or moved belongs to a person reached from \<open>r\<close> along children links or to the
  partner of one.
\<close>

theorem only_own_children_rendered:
  assumes "partner (ps ! r) = Some q"
    and "agreeOn (descendants ps r) ps ps'"
  shows "showPerson f ps' r = showPerson f ps r \<and>
         place f ps' ow r x y c = place f ps ow r x y c \<and>
         draw f ps' rc r = draw f ps rc r \<and>
         (\<forall>shown. showPerson f ps r = Some shown \<longrightarrow>
            q \<in> set shown \<and>
            set shown \<subseteq> descendants ps r \<union> partnersOf ps (descendants ps r)) \<and>
         (\<forall>ms c'. place f ps ow r x y c = Some (ms, c') \<longrightarrow>
            q \<in> box ` set ms \<and>
            box ` set ms \<subseteq> descendants ps r \<union> partnersOf ps (descendants ps r))"
proof -
  have r: "r \<in> descendants ps r" by (rule descendants.self)
  have inShown: "q \<in> set shown" if "showPerson f ps r = Some shown" for shown
    using that assms(1) by (cases f) (auto split: option.splits)
  have inMoved: "q \<in> box ` set ms" if "place f ps ow r x y c = Some (ms, c')" for ms c'
    using that assms(1) by (cases f) (auto simp: Let_def split: option.splits)
  show ?thesis
  proof (intro conjI allI impI)
    show "showPerson f ps' r = showPerson f ps r"
      by (rule showPerson_frame [OF assms(2) r])
    show "place f ps' ow r x y c = place f ps ow r x y c"
      by (rule place_frame [OF assms(2) r])
    show "draw f ps' rc r = draw f ps rc r"
      by (rule draw_frame [OF assms(2) r])
  next
    fix shown assume s: "showPerson f ps r = Some shown"
    show "q \<in> set shown" by (rule inShown [OF s])
    show "set shown \<subseteq> descendants ps r \<union> partnersOf ps (descendants ps r)"
      by (rule showPerson_within [OF r s])
  next
    fix ms c' assume p: "place f ps ow r x y c = Some (ms, c')"
    show "q \<in> box ` set ms" by (rule inMoved [OF p])
    show "box ` set ms \<subseteq> descendants ps r \<union> partnersOf ps (descendants ps r)"
      by (rule place_within [OF r p])
  qed
qed

theorem only_own_children_rendered_witness:
  "showPerson 2
     [\<lparr>name = ''Ann'', ident = ''a'', partner = Some 1, children = [2]\<rparr>,
      \<lparr>name = ''Bob'', ident = ''b'', partner = Some 0, children = []\<rparr>,
      \<lparr>name = ''Cy'', ident = ''c'', partner = None, children = []\<rparr>,
      \<lparr>name = ''Zed'', ident = ''z'', partner = None, children = []\<rparr>] 0 =
   showPerson 2
     [\<lparr>name = ''Ann'', ident = ''a'', partner = Some 1, children = [2]\<rparr>,
      \<lparr>name = ''Bob'', ident = ''b'', partner = Some 0, children = [3]\<rparr>,
      \<lparr>name = ''Cy'', ident = ''c'', partner = None, children = []\<rparr>,
      \<lparr>name = ''Zed'', ident = ''z'', partner = None, children = []\<rparr>] 0 \<and>
   showPerson 2
     [\<lparr>name = ''Ann'', ident = ''a'', partner = Some 1, children = [2]\<rparr>,
      \<lparr>name = ''Bob'', ident = ''b'', partner = Some 0, children = [3]\<rparr>,
      \<lparr>name = ''Cy'', ident = ''c'', partner = None, children = []\<rparr>,
      \<lparr>name = ''Zed'', ident = ''z'', partner = None, children = []\<rparr>] 0 = Some [0, 1, 2] \<and>
   map_option (map box \<circ> fst)
     (place 3
        [\<lparr>name = ''Ann'', ident = ''a'', partner = Some 1, children = [2]\<rparr>,
         \<lparr>name = ''Bob'', ident = ''b'', partner = Some 0, children = [3]\<rparr>,
         \<lparr>name = ''Cy'', ident = ''c'', partner = None, children = []\<rparr>,
         \<lparr>name = ''Zed'', ident = ''z'', partner = None, children = []\<rparr>]
        (\<lambda>_. 50) 0 0 0 noWidths) = Some [0, 1, 2] \<and>
   draw 2
     [\<lparr>name = ''Ann'', ident = ''a'', partner = Some 1, children = [2]\<rparr>,
      \<lparr>name = ''Bob'', ident = ''b'', partner = Some 0, children = []\<rparr>,
      \<lparr>name = ''Cy'', ident = ''c'', partner = None, children = []\<rparr>,
      \<lparr>name = ''Zed'', ident = ''z'', partner = None, children = []\<rparr>]
     (\<lambda>_. \<lparr>leftEdge = 0, rightEdge = 50, topEdge = 0, bottomEdge = 20\<rparr>) 0 =
   draw 2
     [\<lparr>name = ''Ann'', ident = ''a'', partner = Some 1, children = [2]\<rparr>,
      \<lparr>name = ''Bob'', ident = ''b'', partner = Some 0, children = [3]\<rparr>,
      \<lparr>name = ''Cy'', ident = ''c'', partner = None, children = []\<rparr>,
      \<lparr>name = ''Zed'', ident = ''z'', partner = None, children = []\<rparr>]
     (\<lambda>_. \<lparr>leftEdge = 0, rightEdge = 50, topEdge = 0, bottomEdge = 20\<rparr>) 0"
proof -
  let ?ps = "[\<lparr>name = ''Ann'', ident = ''a'', partner = Some 1, children = [2]\<rparr>,
      \<lparr>name = ''Bob'', ident = ''b'', partner = Some 0, children = [3]\<rparr>,
      \<lparr>name = ''Cy'', ident = ''c'', partner = None, children = []\<rparr>,
      \<lparr>name = ''Zed'', ident = ''z'', partner = None, children = []\<rparr>] :: LinkedPerson list"
  let ?ps' = "[\<lparr>name = ''Ann'', ident = ''a'', partner = Some 1, children = [2]\<rparr>,
      \<lparr>name = ''Bob'', ident = ''b'', partner = Some 0, children = []\<rparr>,
      \<lparr>name = ''Cy'', ident = ''c'', partner = None, children = []\<rparr>,
      \<lparr>name = ''Zed'', ident = ''z'', partner = None, children = []\<rparr>] :: LinkedPerson list"
  let ?rc = "\<lambda>_::nat. \<lparr>leftEdge = 0, rightEdge = 50, topEdge = 0, bottomEdge = 20\<rparr>"
  have reach: "p = 0 \<or> p = 2" if "p \<in> descendants ?ps 0" for p
    using that by (induction rule: descendants.induct) auto
  have agree: "agreeOn (descendants ?ps 0) ?ps ?ps'"
    unfolding agreeOn_def
  proof
    fix p assume "p \<in> descendants ?ps 0"
    then have "p = 0 \<or> p = 2" by (rule reach)
    then show "partner (?ps' ! p) = partner (?ps ! p) \<and> children (?ps' ! p) = children (?ps ! p)"
      by auto
  qed
  have q: "partner (?ps ! 0) = Some 1" by simp
  from only_own_children_rendered [OF q agree, where f = 2 and rc = ?rc]
  have "showPerson 2 ?ps' 0 = showPerson 2 ?ps 0" "draw 2 ?ps' ?rc 0 = draw 2 ?ps ?rc 0"
    by blast+
  moreover have "showPerson 2 ?ps 0 = Some [0, 1, 2]" by code_simp
  moreover have "map_option (map box \<circ> fst) (place 3 ?ps (\<lambda>_. 50) 0 0 0 noWidths) = Some [0, 1, 2]"
    by code_simp
  ultimately show ?thesis by simp
qed

end
